theory Spec2Isabelle
  imports Complex_Main
begin

section \<open>The FireSat constellation engine (examples/firesat/satellites/main_constellation.py)\<close>

text \<open>
  The development embeds the geometry helpers, the visibility checks and the
  \<open>Constellation\<close> entity of \<^verbatim>\<open>main_constellation.py\<close>.

  Conventions of the embedding:
  \<^item> Python floats are idealised as real numbers. The one place where the code itself
    produces a NaN (\<open>np.arccos\<close> outside \<open>[-1, 1]\<close>) is kept as \<open>None\<close> of
    \<open>real option\<close>; every comparison with a NaN is false.
  \<^item> datetimes and timedeltas are integers (ticks of some fixed unit); adding a timedelta is \<open>+\<close>.
  \<^item> an exception is a value \<open>Inl e\<close> of \<open>error + 'a\<close>; it ends the run.
  \<^item> the skyfield library (orbit propagation, topocentric elevation) is not part of the
    repository: what the code asks of it is a field of the environment record \<open>env\<close>.
\<close>

subsection \<open>Errors and Python values\<close>

datatype error = TypeError | IndexError | KeyError | AttributeError | ZeroDivisionError

text \<open>The sequencing of statements that may raise.\<close>

definition bind_err :: "error + 'a \<Rightarrow> ('a \<Rightarrow> error + 'b) \<Rightarrow> error + 'b" where
  "bind_err m f = (case m of Inl e \<Rightarrow> Inl e | Inr x \<Rightarrow> f x)"

text \<open>\<open>xs[i]\<close> for a non-negative index, and \<open>xs[i] = v\<close>.\<close>

definition getitem_list :: "'a list \<Rightarrow> nat \<Rightarrow> error + 'a" where
  "getitem_list xs i = (if i < length xs then Inr (xs ! i) else Inl IndexError)"

definition setitem_list :: "'a list \<Rightarrow> nat \<Rightarrow> 'a \<Rightarrow> error + 'a list" where
  "setitem_list xs i v = (if i < length xs then Inr (xs[i := v]) else Inl IndexError)"

text \<open>
  The values that occur as keys and entries of the detection and report dictionaries:
  \<open>None\<close>, booleans, integers (fire ids, row labels, NORAD numbers used as names),
  strings (field names, satellite names) and datetimes.
\<close>

datatype val = VNone | VBool bool | VInt int | VStr string | VTime int

type_synonym pydict = "val \<rightharpoonup> val"

text \<open>\<open>d[k]\<close> raises \<open>KeyError\<close> on a missing key; \<open>d[k] = v\<close> never fails.\<close>

definition getitem :: "pydict \<Rightarrow> val \<Rightarrow> error + val" where
  "getitem d k = (case d k of None \<Rightarrow> Inl KeyError | Some v \<Rightarrow> Inr v)"

text \<open>Truth value of an object in a condition (\<open>if x:\<close>).\<close>

fun truthy :: "val \<Rightarrow> bool" where
  "truthy VNone = False"
| "truthy (VBool b) = b"
| "truthy (VInt n) = (n \<noteq> 0)"
| "truthy (VStr s) = (s \<noteq> [])"
| "truthy (VTime t) = True"

subsection \<open>Geometry: \<open>compute_min_elevation\<close>\<close>

definition earth_equatorial_radius :: real where
  "earth_equatorial_radius = 6378137"

definition earth_polar_radius :: real where
  "earth_polar_radius = 6356752314245179 / 1000000000"

definition earth_mean_radius :: real where
  "earth_mean_radius = (2 * earth_equatorial_radius + earth_polar_radius) / 3"

definition radians :: "real \<Rightarrow> real" where
  "radians x = x * pi / 180"

definition degrees :: "real \<Rightarrow> real" where
  "degrees x = x * 180 / pi"

text \<open>
  \<^verbatim>\<open>
  sin_eta = np.sin(np.radians(field_of_regard / 2))
  sin_rho = earth_mean_radius / (earth_mean_radius + altitude)
  cos_epsilon = sin_eta / sin_rho
  if cos_epsilon > 1:
      return 0.0
  return np.degrees(np.arccos(cos_epsilon))
  \<close>
  The first division is one of Python floats in \<open>tick\<close>, which passes
  \<open>float(...)\<close>, and raises \<open>ZeroDivisionError\<close> on a zero divisor (in
  \<open>__init__\<close> the altitude comes straight from skyfield as a numpy number, whose
  division by zero is \<open>inf\<close>; the model raises there too). \<open>sin_rho\<close> itself is
  never zero. \<open>np.arccos\<close> of a number below \<open>-1\<close> is NaN.
\<close>

definition compute_min_elevation :: "real \<Rightarrow> real \<Rightarrow> error + real option" where
  "compute_min_elevation altitude field_of_regard =
     (let sin_eta = sin (radians (field_of_regard / 2)) in
      if earth_mean_radius + altitude = 0 then Inl ZeroDivisionError
      else
        let sin_rho = earth_mean_radius / (earth_mean_radius + altitude);
            cos_epsilon = sin_eta / sin_rho
        in if cos_epsilon > 1 then Inr (Some 0)
           else if cos_epsilon < - 1 then Inr None
           else Inr (Some (degrees (arccos cos_epsilon))))"

subsection \<open>The skyfield collaborator and the visibility checks\<close>

record geopos =
  latitude :: real
  longitude :: real
  elevation_m :: real

text \<open>\<open>wgs84.latlon(lat, lon)\<close>: a point on the surface.\<close>

definition wgs84_latlon :: "real \<Rightarrow> real \<Rightarrow> geopos" where
  "wgs84_latlon lat lon = \<lparr>latitude = lat, longitude = lon, elevation_m = 0\<rparr>"

text \<open>
  What the code asks of skyfield and of the configuration file, for satellites of an
  opaque type \<open>'s\<close>: the topocentric altitude in degrees of \<open>(sat - loc).at(t).altaz()\<close>,
  the sub-satellite point \<open>wgs84.subpoint(sat.at(t))\<close>, \<open>sat.epoch\<close>, the constructor
  \<open>EarthSatellite(line1, line2, name, ts)\<close> and the list
  \<open>config.rc.application_configuration["FIELD_OF_REGARD"]\<close>.
\<close>

record 's env =
  altaz_degrees :: "int \<Rightarrow> 's \<Rightarrow> geopos \<Rightarrow> real"
  subpoint :: "'s \<Rightarrow> int \<Rightarrow> geopos"
  epoch :: "'s \<Rightarrow> int"
  EarthSatellite :: "string \<Rightarrow> string \<Rightarrow> val \<Rightarrow> 's"
  FIELD_OF_REGARD :: "real list"

definition get_elevation_angle :: "'s env \<Rightarrow> int \<Rightarrow> 's \<Rightarrow> geopos \<Rightarrow> real" where
  "get_elevation_angle env t sat loc = altaz_degrees env t sat loc"

text \<open>
  \<^verbatim>\<open>
  isInView = False
  elevationFromFire = get_elevation_angle(t, satellite, topos)
  if elevationFromFire >= min_elevation:
      isInView = True
  return isInView
  \<close>
\<close>

definition check_in_view :: "'s env \<Rightarrow> int \<Rightarrow> 's \<Rightarrow> geopos \<Rightarrow> real option \<Rightarrow> bool" where
  "check_in_view env t satellite topos min_elevation =
     (let elevationFromFire = get_elevation_angle env t satellite topos
      in case min_elevation of
           None \<Rightarrow> False
         | Some m \<Rightarrow> if elevationFromFire \<ge> m then True else False)"

text \<open>
  A row of the \<open>grounds\<close> DataFrame. The frame is only ever built by \<open>initialize\<close>
  (empty) and by \<open>pd.concat(..., ignore_index=True)\<close>, so its row labels are the
  positions \<open>0, 1, ..., n - 1\<close>: the frame is the list of its rows.
\<close>

record ground =
  groundId :: int
  ground_latitude :: real
  ground_longitude :: real
  elevAngle :: real
  operational :: bool

text \<open>
  \<^verbatim>\<open>
  isInRange = False
  groundId = None
  for k, ground in grounds.iterrows():
      if ground.operational:
          groundLatLon = wgs84.latlon(ground.latitude, ground.longitude)
          satelliteElevation = get_elevation_angle(t, satellite, groundLatLon)
          if satelliteElevation >= ground.elevAngle:
              isInRange = True
              groundId = k
              break
  return isInRange, groundId
  \<close>
  \<open>iterrows\<close> yields the row label \<open>k\<close> with each row; the loop below carries it.
\<close>

fun check_in_range_rows :: "'s env \<Rightarrow> int \<Rightarrow> 's \<Rightarrow> nat \<Rightarrow> ground list \<Rightarrow> bool \<times> val" where
  "check_in_range_rows env t satellite k [] = (False, VNone)"
| "check_in_range_rows env t satellite k (ground # rest) =
     (if operational ground then
        (let groundLatLon = wgs84_latlon (ground_latitude ground) (ground_longitude ground);
             satelliteElevation = get_elevation_angle env t satellite groundLatLon
         in if satelliteElevation \<ge> elevAngle ground then (True, VInt (int k))
            else check_in_range_rows env t satellite (Suc k) rest)
      else check_in_range_rows env t satellite (Suc k) rest)"

definition check_in_range :: "'s env \<Rightarrow> int \<Rightarrow> 's \<Rightarrow> ground list option \<Rightarrow> error + bool \<times> val" where
  "check_in_range env t satellite grounds =
     (case grounds of
        None \<Rightarrow> Inl AttributeError
      | Some rows \<Rightarrow> Inr (check_in_range_rows env t satellite 0 rows))"

subsection \<open>The state of a \<open>Constellation\<close>\<close>

record fire =
  fireId :: int
  start :: int
  fire_latitude :: real
  fire_longitude :: real

text \<open>
  The attributes of the object that its methods read or write. \<open>time\<close> and
  \<open>next_time\<close> are the clock of the \<open>Entity\<close> base class.
\<close>

record 's constellation =
  names :: "val list"
  fires :: "fire list"
  grounds :: "ground list option"
  satellites :: "'s list"
  detect :: "pydict list"
  report :: "pydict list"
  positions :: "geopos option list"
  next_positions :: "geopos option list"
  min_elevations_fire :: "real option list"
  time :: "int option"
  next_time :: "int option"

text \<open>
  Modelled from the spec: \<open>notify_observers\<close> belongs to the \<open>Observable\<close> class of
  the \<open>nost_tools\<close> library, which is not among the source files. The spec has the
  notifier deliver each notification to the listeners synchronously and in order, so a
  call of \<open>notify_observers\<close> appends the notification to the output of the
  operation. A notification is its kind (\<open>detected\<close> or \<open>reported\<close>) with the
  entries of the payload dictionary.
\<close>

datatype notification =
    Detected (n_fireId: val) (n_detected: val) (n_detected_by: val)
  | Reported (n_fireId: val) (n_reported: val) (n_reported_by: val) (n_reported_to: val)

text \<open>The field names of the detection and report dictionaries.\<close>

definition k_fireId :: val where "k_fireId = VStr ''fireId''"
definition k_firstDetect :: val where "k_firstDetect = VStr ''firstDetect''"
definition k_firstDetector :: val where "k_firstDetector = VStr ''firstDetector''"
definition k_firstReport :: val where "k_firstReport = VStr ''firstReport''"
definition k_firstReporter :: val where "k_firstReporter = VStr ''firstReporter''"
definition k_firstReportedTo :: val where "k_firstReportedTo = VStr ''firstReportedTo''"

subsection \<open>Loops that may raise\<close>

fun fold_err :: "('a \<Rightarrow> 'b \<Rightarrow> error + 'b) \<Rightarrow> 'a list \<Rightarrow> 'b \<Rightarrow> error + 'b" where
  "fold_err f [] s = Inr s"
| "fold_err f (x # xs) s = (case f x s of Inl e \<Rightarrow> Inl e | Inr s' \<Rightarrow> fold_err f xs s')"

fun map_err :: "('a \<Rightarrow> error + 'b) \<Rightarrow> 'a list \<Rightarrow> error + 'b list" where
  "map_err f [] = Inr []"
| "map_err f (x # xs) =
     (case f x of
        Inl e \<Rightarrow> Inl e
      | Inr y \<Rightarrow> (case map_err f xs of Inl e \<Rightarrow> Inl e | Inr ys \<Rightarrow> Inr (y # ys)))"

definition enumerate_list :: "'a list \<Rightarrow> (nat \<times> 'a) list" where
  "enumerate_list xs = zip [0..<length xs] xs"

text \<open>\<open>p.elevation.m\<close> of a position that may still be \<open>None\<close>.\<close>

definition elevation_of :: "geopos option \<Rightarrow> error + real" where
  "elevation_of p = (case p of None \<Rightarrow> Inl AttributeError | Some g \<Rightarrow> Inr (elevation_m g))"

subsection \<open>The \<open>Entity\<close> base class\<close>

text \<open>
  Modelled from the spec: the \<open>Entity\<close> base class of the \<open>nost_tools\<close> library is not
  among the source files. The spec gives it a simulation clock: \<open>initialize\<close> sets it,
  \<open>tick\<close> computes the next time \<open>currentTime + \<Delta>t\<close> without committing it, \<open>tock\<close>
  advances the clock to it. Before \<open>initialize\<close> there is no time, and adding a
  timedelta to \<open>None\<close> raises.
\<close>

definition entity_initialize :: "int \<Rightarrow> 's constellation \<Rightarrow> 's constellation" where
  "entity_initialize init_time c = c\<lparr>time := Some init_time, next_time := Some init_time\<rparr>"

definition entity_tick :: "int \<Rightarrow> 's constellation \<Rightarrow> error + 's constellation" where
  "entity_tick time_step c =
     (case time c of
        None \<Rightarrow> Inl TypeError
      | Some now \<Rightarrow> Inr (c\<lparr>next_time := Some (now + time_step)\<rparr>))"

definition entity_tock :: "'s constellation \<Rightarrow> 's constellation" where
  "entity_tock c = c\<lparr>time := next_time c\<rparr>"

text \<open>\<open>self.get_time() + time_step\<close>.\<close>

definition time_plus :: "'s constellation \<Rightarrow> int \<Rightarrow> error + int" where
  "time_plus c time_step =
     (case time c of None \<Rightarrow> Inl TypeError | Some now \<Rightarrow> Inr (now + time_step))"

subsection \<open>\<open>Constellation.__init__\<close> and \<open>initialize\<close>\<close>

text \<open>
  \<^verbatim>\<open>
  self.satellites = []
  if ES is not None:
      for satellite in ES: self.satellites.append(satellite)
  if tles is not None:
      for i, tle in enumerate(tles):
          self.satellites.append(EarthSatellite(tle[0], tle[1], self.names[i], self.ts))
  self.detect = []
  self.report = []
  self.positions = self.next_positions = [None for satellite in self.satellites]
  self.min_elevations_fire = [
      compute_min_elevation(wgs84.subpoint(satellite.at(satellite.epoch)).elevation.m,
                            config.rc.application_configuration["FIELD_OF_REGARD"][i])
      for i, satellite in enumerate(self.satellites)]
  \<close>
\<close>

definition satellites_of_tles :: "'s env \<Rightarrow> val list \<Rightarrow> (string \<times> string) list \<Rightarrow> error + 's list" where
  "satellites_of_tles env nms tles =
     map_err (\<lambda>(i, tle). bind_err (getitem_list nms i)
                (\<lambda>name. Inr (EarthSatellite env (fst tle) (snd tle) name)))
       (enumerate_list tles)"

definition initial_min_elevation :: "'s env \<Rightarrow> nat \<times> 's \<Rightarrow> error + real option" where
  "initial_min_elevation env = (\<lambda>(i, satellite).
     bind_err (getitem_list (FIELD_OF_REGARD env) i)
       (\<lambda>field_of_regard.
          compute_min_elevation (elevation_m (subpoint env satellite (epoch env satellite)))
            field_of_regard))"

definition init :: "'s env \<Rightarrow> val list \<Rightarrow> 's list option \<Rightarrow> (string \<times> string) list option
    \<Rightarrow> error + 's constellation" where
  "init env nms ES tles =
     (let sats1 = (case ES of None \<Rightarrow> [] | Some es \<Rightarrow> es) in
      bind_err (case tles of None \<Rightarrow> Inr [] | Some ts \<Rightarrow> satellites_of_tles env nms ts)
        (\<lambda>sats2.
           let sats = sats1 @ sats2 in
           bind_err (map_err (initial_min_elevation env) (enumerate_list sats))
             (\<lambda>mes. Inr \<lparr>names = nms, fires = [], grounds = None, satellites = sats,
                          detect = [], report = [],
                          positions = map (\<lambda>satellite. None) sats,
                          next_positions = map (\<lambda>satellite. None) sats,
                          min_elevations_fire = mes,
                          time = None, next_time = None\<rparr>)))"

text \<open>
  \<^verbatim>\<open>
  super().initialize(init_time)
  self.grounds = pd.DataFrame({... five empty columns ...})
  self.positions = self.next_positions = [
      wgs84.subpoint(satellite.at(self.ts.from_datetime(init_time)))
      for satellite in self.satellites]
  \<close>
\<close>

definition initialize :: "'s env \<Rightarrow> int \<Rightarrow> 's constellation \<Rightarrow> 's constellation" where
  "initialize env init_time c =
     (let c1 = entity_initialize init_time c;
          ps = map (\<lambda>satellite. Some (subpoint env satellite init_time)) (satellites c1)
      in c1\<lparr>grounds := Some [], positions := ps, next_positions := ps\<rparr>)"

subsection \<open>\<open>Constellation.tick\<close>\<close>

text \<open>
  The detection part of the loop body, for satellite \<open>i\<close> and fire \<open>j\<close>, once
  \<open>isInView\<close> holds. The guard \<open>if self.detect[j][self.names[i]] is None\<close> is a
  comment in the source, so the entry is written whatever it held.
  \<^verbatim>\<open>
  self.detect[j][self.names[i]] = self.get_time() + time_step
  if self.detect[j]["firstDetector"] is None:
      self.detect[j]["firstDetect"] = True
      self.detect[j]["firstDetector"] = self.names[i]
  \<close>
  \<open>detect_latch\<close> is what these lines do to the dictionary \<open>self.detect[j]\<close>, and
  \<open>tick_detect\<close> finds the dictionary and the name and puts the result back.
\<close>

definition detect_latch :: "int \<Rightarrow> val \<Rightarrow> pydict \<Rightarrow> error + pydict" where
  "detect_latch thn name d =
     (let d1 = d(name \<mapsto> VTime thn) in
      bind_err (getitem d1 k_firstDetector) (\<lambda>firstDetector.
        if firstDetector = VNone
        then Inr (d1(k_firstDetect \<mapsto> VBool True, k_firstDetector \<mapsto> name))
        else Inr d1))"

definition tick_detect :: "int \<Rightarrow> nat \<Rightarrow> nat \<Rightarrow> 's constellation \<Rightarrow> error + 's constellation" where
  "tick_detect thn i j c =
     bind_err (getitem_list (detect c) j) (\<lambda>d.
     bind_err (getitem_list (names c) i) (\<lambda>name.
     bind_err (detect_latch thn name d) (\<lambda>d'.
       Inr (c\<lparr>detect := (detect c)[j := d']\<rparr>))))"

text \<open>
  The report part of the loop body.
  \<^verbatim>\<open>
  if (self.detect[j][self.names[i]] is not None) and (
      self.report[j][self.names[i]] is None):
      isInRange, groundId = check_in_range(then, satellite, self.grounds)
      if isInRange:
          self.report[j][self.names[i]] = self.get_time() + time_step
          if self.report[j]["firstReporter"] is None:
              self.report[j]["firstReport"] = True
              self.report[j]["firstReporter"] = self.names[i]
              self.report[j]["firstReportedTo"] = groundId
  \<close>
  \<open>report_latch\<close> is what the four innermost lines do to the dictionary
  \<open>self.report[j]\<close>; \<open>in_range\<close> is the pair \<open>(isInRange, groundId)\<close>.
\<close>

definition report_latch :: "int \<Rightarrow> val \<Rightarrow> val \<Rightarrow> pydict \<Rightarrow> error + pydict" where
  "report_latch thn name gid r =
     (let r1 = r(name \<mapsto> VTime thn) in
      bind_err (getitem r1 k_firstReporter) (\<lambda>firstReporter.
        if firstReporter = VNone
        then Inr (r1(k_firstReport \<mapsto> VBool True, k_firstReporter \<mapsto> name,
                     k_firstReportedTo \<mapsto> gid))
        else Inr r1))"

definition tick_report :: "'s env \<Rightarrow> int \<Rightarrow> nat \<Rightarrow> 's \<Rightarrow> nat \<Rightarrow> 's constellation
    \<Rightarrow> error + 's constellation" where
  "tick_report env thn i satellite j c =
     bind_err (getitem_list (detect c) j) (\<lambda>d.
     bind_err (getitem_list (names c) i) (\<lambda>name.
     bind_err (getitem d name) (\<lambda>detected.
       if detected = VNone then Inr c
       else
         bind_err (getitem_list (report c) j) (\<lambda>r.
         bind_err (getitem r name) (\<lambda>reported.
           if reported \<noteq> VNone then Inr c
           else
             bind_err (check_in_range env thn satellite (grounds c)) (\<lambda>in_range.
               if \<not> fst in_range then Inr c
               else
                 bind_err (report_latch thn name (snd in_range) r) (\<lambda>r'.
                   Inr (c\<lparr>report := (report c)[j := r']\<rparr>))))))))"

text \<open>
  The body of the inner loop \<open>for j, fire in enumerate(self.fires)\<close>.
  \<^verbatim>\<open>
  topos = wgs84.latlon(fire["latitude"], fire["longitude"])
  isInView = check_in_view(then, satellite, topos, self.min_elevations_fire[i])
  if isInView:
      ... detection part ...
  ... report part ...
  \<close>
\<close>

definition tick_fire :: "'s env \<Rightarrow> int \<Rightarrow> nat \<Rightarrow> 's \<Rightarrow> nat \<times> fire \<Rightarrow> 's constellation
    \<Rightarrow> error + 's constellation" where
  "tick_fire env thn i satellite = (\<lambda>(j, fire) c.
     let topos = wgs84_latlon (fire_latitude fire) (fire_longitude fire) in
     bind_err (getitem_list (min_elevations_fire c) i) (\<lambda>min_elevation.
       let isInView = check_in_view env thn satellite topos min_elevation in
       bind_err (if isInView then tick_detect thn i j c else Inr c)
         (tick_report env thn i satellite j)))"

text \<open>
  The body of the outer loop \<open>for i, satellite in enumerate(self.satellites)\<close>.
  \<^verbatim>\<open>
  then = self.ts.from_datetime(self.get_time() + time_step)
  self.min_elevations_fire[i] = compute_min_elevation(
      float(self.next_positions[i].elevation.m),
      config.rc.application_configuration["FIELD_OF_REGARD"][i])
  for j, fire in enumerate(self.fires):
      ...
  \<close>
\<close>

definition tick_satellite :: "'s env \<Rightarrow> int \<Rightarrow> nat \<times> 's \<Rightarrow> 's constellation
    \<Rightarrow> error + 's constellation" where
  "tick_satellite env thn = (\<lambda>(i, satellite) c.
     bind_err (getitem_list (next_positions c) i) (\<lambda>p.
     bind_err (elevation_of p) (\<lambda>altitude.
     bind_err (getitem_list (FIELD_OF_REGARD env) i) (\<lambda>field_of_regard.
     bind_err (compute_min_elevation altitude field_of_regard) (\<lambda>min_elevation.
     bind_err (setitem_list (min_elevations_fire c) i min_elevation) (\<lambda>mes.
       fold_err (tick_fire env thn i satellite) (enumerate_list (fires c))
         (c\<lparr>min_elevations_fire := mes\<rparr>)))))))"

text \<open>
  \<^verbatim>\<open>
  super().tick(time_step)
  self.next_positions = [
      wgs84.subpoint(satellite.at(self.ts.from_datetime(self.get_time() + time_step)))
      for satellite in self.satellites]
  for i, satellite in enumerate(self.satellites):
      ...
  \<close>
\<close>

definition tick :: "'s env \<Rightarrow> int \<Rightarrow> 's constellation \<Rightarrow> error + 's constellation" where
  "tick env time_step c =
     bind_err (entity_tick time_step c) (\<lambda>c1.
     bind_err (time_plus c1 time_step) (\<lambda>thn.
       let c2 = c1\<lparr>next_positions :=
                      map (\<lambda>satellite. Some (subpoint env satellite thn)) (satellites c1)\<rparr>
       in fold_err (tick_satellite env thn) (enumerate_list (satellites c2)) c2))"

subsection \<open>\<open>Constellation.tock\<close>\<close>

text \<open>
  The first loop of \<open>tock\<close>. It changes nothing: the line that would clear
  \<open>firstDetect\<close> is a comment in the source. The result is the notifications made,
  and the exception that ended the loop, if one did.
  \<^verbatim>\<open>
  for i, newly_detected_fire in enumerate(self.detect):
      if newly_detected_fire["firstDetect"]:
          detector = newly_detected_fire["firstDetector"]
          self.notify_observers(self.PROPERTY_FIRE_DETECTED, None, {
              "fireId": newly_detected_fire["fireId"],
              "detected": newly_detected_fire[detector],
              "detected_by": detector})
          # self.detect[i]["firstDetect"] = False
  \<close>
\<close>

definition detected_notification :: "pydict \<Rightarrow> error + notification list" where
  "detected_notification newly_detected_fire =
     bind_err (getitem newly_detected_fire k_firstDetect) (\<lambda>firstDetect.
       if truthy firstDetect then
         bind_err (getitem newly_detected_fire k_firstDetector) (\<lambda>detector.
         bind_err (getitem newly_detected_fire k_fireId) (\<lambda>fid.
         bind_err (getitem newly_detected_fire detector) (\<lambda>detected.
           Inr [Detected fid detected detector])))
       else Inr [])"

fun tock_detected :: "pydict list \<Rightarrow> notification list \<times> error option" where
  "tock_detected [] = ([], None)"
| "tock_detected (d # ds) =
     (case detected_notification d of
        Inl e \<Rightarrow> ([], Some e)
      | Inr ns \<Rightarrow> (case tock_detected ds of (ms, r) \<Rightarrow> (ns @ ms, r)))"

text \<open>
  The second loop. The last line is outside the \<open>if\<close>: it runs for every record.
  \<^verbatim>\<open>
  for i, newly_reported_fire in enumerate(self.report):
      if newly_reported_fire["firstReport"]:
          reporter = newly_reported_fire["firstReporter"]
          self.notify_observers(self.PROPERTY_FIRE_REPORTED, None, {
              "fireId": newly_reported_fire["fireId"],
              "reported": newly_reported_fire[reporter],
              "reported_by": reporter,
              "reported_to": newly_reported_fire["firstReportedTo"]})
      self.report[i]["firstReport"] = False
  \<close>
\<close>

definition reported_notification :: "pydict \<Rightarrow> error + notification list" where
  "reported_notification newly_reported_fire =
     bind_err (getitem newly_reported_fire k_firstReport) (\<lambda>firstReport.
       if truthy firstReport then
         bind_err (getitem newly_reported_fire k_firstReporter) (\<lambda>reporter.
         bind_err (getitem newly_reported_fire k_fireId) (\<lambda>fid.
         bind_err (getitem newly_reported_fire reporter) (\<lambda>reported.
         bind_err (getitem newly_reported_fire k_firstReportedTo) (\<lambda>reported_to.
           Inr [Reported fid reported reporter reported_to]))))
       else Inr [])"

fun tock_reported :: "pydict list \<Rightarrow> notification list \<times> (error + pydict list)" where
  "tock_reported [] = ([], Inr [])"
| "tock_reported (r # rs) =
     (case reported_notification r of
        Inl e \<Rightarrow> ([], Inl e)
      | Inr ns \<Rightarrow>
          (case tock_reported rs of
             (ms, Inl e) \<Rightarrow> (ns @ ms, Inl e)
           | (ms, Inr rs') \<Rightarrow> (ns @ ms, Inr (r(k_firstReport \<mapsto> VBool False) # rs'))))"

text \<open>
  \<^verbatim>\<open>
  self.positions = self.next_positions
  ... first loop ...
  ... second loop ...
  super().tock()
  \<close>
  The result is the notifications made, in order, and the state left, or the exception.
\<close>

definition tock :: "'s constellation \<Rightarrow> notification list \<times> (error + 's constellation)" where
  "tock c =
     (let c1 = c\<lparr>positions := next_positions c\<rparr> in
      case tock_detected (detect c1) of
        (ds, Some e) \<Rightarrow> (ds, Inl e)
      | (ds, None) \<Rightarrow>
          (case tock_reported (report c1) of
             (rs, Inl e) \<Rightarrow> (ds @ rs, Inl e)
           | (rs, Inr report') \<Rightarrow> (ds @ rs, Inr (entity_tock (c1\<lparr>report := report'\<rparr>)))))"

subsection \<open>The message callbacks \<open>on_fire\<close> and \<open>on_ground\<close>\<close>

text \<open>\<open>dict.fromkeys(keys)\<close>: every key with the value \<open>None\<close>.\<close>

definition fromkeys :: "val list \<Rightarrow> pydict" where
  "fromkeys ks = map_of (map (\<lambda>k. (k, VNone)) ks)"

text \<open>
  The callbacks receive the body of a message; decoding and validating it is the
  messaging layer's, and the model starts from the validated \<open>FireStarted\<close> or
  \<open>GroundLocation\<close>.
  \<^verbatim>\<open>
  self.fires.append({"fireId": started.fireId, "start": started.start,
                     "latitude": started.latitude, "longitude": started.longitude})
  satelliteDictionary = dict.fromkeys(self.names)
  satelliteDictionary["fireId"] = started.fireId
  detectDictionary = copy.deepcopy(satelliteDictionary)
  detectDictionary["firstDetect"] = False
  detectDictionary["firstDetector"] = None
  self.detect.append(detectDictionary)
  reportDictionary = copy.deepcopy(satelliteDictionary)
  reportDictionary["firstReport"] = False
  reportDictionary["firstReporter"] = None
  reportDictionary["firstReportedTo"] = None
  self.report.append(reportDictionary)
  \<close>
\<close>

definition on_fire :: "fire \<Rightarrow> 's constellation \<Rightarrow> 's constellation" where
  "on_fire started c =
     (let satelliteDictionary = (fromkeys (names c))(k_fireId \<mapsto> VInt (fireId started));
          detectDictionary = satelliteDictionary(k_firstDetect \<mapsto> VBool False,
                                                 k_firstDetector \<mapsto> VNone);
          reportDictionary = satelliteDictionary(k_firstReport \<mapsto> VBool False,
                                                 k_firstReporter \<mapsto> VNone,
                                                 k_firstReportedTo \<mapsto> VNone)
      in c\<lparr>fires := fires c @ [started],
            detect := detect c @ [detectDictionary],
            report := report c @ [reportDictionary]\<rparr>)"

text \<open>
  \<^verbatim>\<open>
  if location.groundId in self.grounds.groundId:
      self.grounds[self.grounds.groundId == location.groundId].latitude = location.latitude
      ... the same for longitude, elevAngle and operational ...
      print(f"Station {location.groundId} updated at time {self.get_time()}.")
  else:
      location = {"groundId": location.groundId, ... }
      new_data = pd.DataFrame([location])
      self.grounds = pd.concat([self.grounds, new_data], ignore_index=True)
  \<close>
  Two facts of pandas decide what this does.
  \<^item> \<open>x in series\<close> tests whether \<open>x\<close> is a label of the index of the series, not
    whether it is one of its values. The labels of \<open>self.grounds.groundId\<close> are the row
    positions \<open>0, ..., n - 1\<close>.
  \<^item> \<open>self.grounds[mask]\<close> with a boolean mask is a new frame holding copies of the
    selected rows; assigning a column of that temporary frame leaves \<open>self.grounds\<close> as
    it was. The four assignments of the first branch change nothing in the state.
\<close>

definition series_contains :: "ground list \<Rightarrow> int \<Rightarrow> bool" where
  "series_contains rows x = (0 \<le> x \<and> x < int (length rows))"

definition on_ground :: "ground \<Rightarrow> 's constellation \<Rightarrow> error + 's constellation" where
  "on_ground location c =
     (case grounds c of
        None \<Rightarrow> Inl AttributeError
      | Some rows \<Rightarrow>
          if series_contains rows (groundId location) then Inr c
          else Inr (c\<lparr>grounds := Some (rows @ [location])\<rparr>))"

subsection \<open>Runs\<close>

text \<open>
  The calls the simulator and the message broker make on the object, after construction.
  A run is a list of them; an exception ends it, and what was notified until then stays
  notified.
\<close>

datatype op = Initialize int | Tick int | Tock | OnFire fire | OnGround ground

fun step :: "'s env \<Rightarrow> op \<Rightarrow> 's constellation \<Rightarrow> notification list \<times> (error + 's constellation)" where
  "step env (Initialize init_time) c = ([], Inr (initialize env init_time c))"
| "step env (Tick time_step) c = ([], tick env time_step c)"
| "step env Tock c = tock c"
| "step env (OnFire started) c = ([], Inr (on_fire started c))"
| "step env (OnGround location) c = ([], on_ground location c)"

fun run :: "'s env \<Rightarrow> op list \<Rightarrow> 's constellation \<Rightarrow> notification list \<times> (error + 's constellation)" where
  "run env [] c = ([], Inr c)"
| "run env (x # xs) c =
     (case step env x c of
        (out, Inl e) \<Rightarrow> (out, Inl e)
      | (out, Inr c') \<Rightarrow> (case run env xs c' of (out', r) \<Rightarrow> (out @ out', r)))"

section \<open>Notions used in the statements\<close>

subsection \<open>Ground links\<close>

text \<open>
  What \<open>check_in_range\<close> returns in general: the label of the first row that is
  operational and whose \<open>elevAngle\<close> the satellite's elevation reaches, and
  \<open>(False, None)\<close> when no row is.
\<close>

definition link_closes :: "'s env \<Rightarrow> int \<Rightarrow> 's \<Rightarrow> ground \<Rightarrow> bool" where
  "link_closes env t satellite g =
     (operational g \<and>
      get_elevation_angle env t satellite
        (wgs84_latlon (ground_latitude g) (ground_longitude g)) \<ge> elevAngle g)"

subsection \<open>Names and the shape of the dictionaries\<close>

text \<open>
  The keys the code itself adds to a detection or report dictionary. The satellite
  names are the other keys; the docstring of the class asks for strings, the script at
  the end of the file passes NORAD numbers.
\<close>

definition reserved_keys :: "val list" where
  "reserved_keys = [k_fireId, k_firstDetect, k_firstDetector,
                    k_firstReport, k_firstReporter, k_firstReportedTo]"

fun is_name :: "val \<Rightarrow> bool" where
  "is_name (VStr s) = True"
| "is_name (VInt n) = True"
| "is_name v = False"

definition names_ok :: "val list \<Rightarrow> bool" where
  "names_ok nms = list_all (\<lambda>n. is_name n \<and> n \<notin> set reserved_keys) nms"

text \<open>An entry of a satellite: \<open>None\<close> or a datetime.\<close>

fun timestamp :: "val \<Rightarrow> bool" where
  "timestamp VNone = True"
| "timestamp (VTime t) = True"
| "timestamp v = False"

text \<open>
  What one pass through the detection part, and through the report part, does to the
  dictionary of the fire.
\<close>

definition detect_upd :: "val \<Rightarrow> int \<Rightarrow> pydict \<Rightarrow> pydict" where
  "detect_upd name thn d =
     (let d1 = d(name \<mapsto> VTime thn) in
      if d1 k_firstDetector = Some VNone
      then d1(k_firstDetect \<mapsto> VBool True, k_firstDetector \<mapsto> name)
      else d1)"

definition report_upd :: "val \<Rightarrow> int \<Rightarrow> val \<Rightarrow> pydict \<Rightarrow> pydict" where
  "report_upd name thn gid r =
     (let r1 = r(name \<mapsto> VTime thn) in
      if r1 k_firstReporter = Some VNone
      then r1(k_firstReport \<mapsto> VBool True, k_firstReporter \<mapsto> name,
              k_firstReportedTo \<mapsto> gid)
      else r1)"

text \<open>
  The shape of a detection dictionary and of the report dictionary of the same fire:
  either fresh, or latched on a satellite whose own entry is set.
\<close>

definition detect_ok :: "val list \<Rightarrow> pydict \<Rightarrow> bool" where
  "detect_ok nms d =
     ((\<exists>fid. d k_fireId = Some (VInt fid)) \<and>
      (\<forall>n \<in> set nms. \<exists>v. d n = Some v \<and> timestamp v) \<and>
      ((d k_firstDetect = Some (VBool False) \<and> d k_firstDetector = Some VNone \<and>
        (\<forall>n \<in> set nms. d n = Some VNone)) \<or>
       (d k_firstDetect = Some (VBool True) \<and>
        (\<exists>n \<in> set nms. d k_firstDetector = Some n \<and> d n \<noteq> Some VNone))))"

definition report_ok :: "val list \<Rightarrow> pydict \<Rightarrow> pydict \<Rightarrow> bool" where
  "report_ok nms d r =
     (r k_fireId = d k_fireId \<and>
      (\<forall>n \<in> set nms. \<exists>v. r n = Some v \<and> timestamp v \<and> (v \<noteq> VNone \<longrightarrow> d n \<noteq> Some VNone)) \<and>
      (\<exists>b. r k_firstReport = Some (VBool b) \<and> (b \<longrightarrow> r k_firstReporter \<noteq> Some VNone)) \<and>
      (\<exists>g. r k_firstReportedTo = Some g) \<and>
      ((r k_firstReporter = Some VNone \<and> (\<forall>n \<in> set nms. r n = Some VNone)) \<or>
       (\<exists>n \<in> set nms. r k_firstReporter = Some n \<and> r n \<noteq> Some VNone)))"

text \<open>
  The invariant of the object: the names avoid the reserved keys, and \<open>fires\<close>,
  \<open>detect\<close> and \<open>report\<close> are aligned, entry by entry, with dictionaries of the
  shape above that carry the fire's id.
\<close>

definition consistent :: "'s constellation \<Rightarrow> bool" where
  "consistent c =
     (names_ok (names c) \<and>
      length (detect c) = length (fires c) \<and>
      length (report c) = length (fires c) \<and>
      (\<forall>j < length (fires c).
         detect_ok (names c) (detect c ! j) \<and>
         report_ok (names c) (detect c ! j) (report c ! j) \<and>
         (detect c ! j) k_fireId = Some (VInt (fireId (fires c ! j)))))"

subsection \<open>What an operation leaves alone\<close>

text \<open>The attributes that the loop bodies of \<open>tick\<close> leave alone.\<close>

definition same_base :: "'s constellation \<Rightarrow> 's constellation \<Rightarrow> bool" where
  "same_base c c' =
     (names c' = names c \<and> fires c' = fires c \<and> grounds c' = grounds c \<and>
      satellites c' = satellites c \<and> positions c' = positions c \<and>
      next_positions c' = next_positions c \<and> time c' = time c \<and>
      next_time c' = next_time c \<and>
      length (detect c') = length (detect c) \<and> length (report c') = length (report c))"

text \<open>A flag of a dictionary is set: the key is there and its value counts as true.\<close>

definition flag_set :: "pydict \<Rightarrow> val \<Rightarrow> bool" where
  "flag_set d k = (case d k of None \<Rightarrow> False | Some v \<Rightarrow> truthy v)"

text \<open>No \<open>firstDetect\<close> flag that was set in \<open>c\<close> is cleared in \<open>c'\<close>.\<close>

definition flags_kept :: "'s constellation \<Rightarrow> 's constellation \<Rightarrow> bool" where
  "flags_kept c c' =
     (length (detect c) \<le> length (detect c') \<and>
      (\<forall>j < length (detect c).
         flag_set (detect c ! j) k_firstDetect \<longrightarrow> flag_set (detect c' ! j) k_firstDetect))"

text \<open>The per-satellite lists have one entry for each satellite.\<close>

definition per_satellite :: "'s constellation \<Rightarrow> bool" where
  "per_satellite c =
     (length (positions c) = length (satellites c) \<and>
      length (next_positions c) = length (satellites c) \<and>
      length (min_elevations_fire c) = length (satellites c))"

text \<open>The per-fire lists have one entry for each fire.\<close>

definition per_fire :: "'s constellation \<Rightarrow> bool" where
  "per_fire c =
     (length (detect c) = length (fires c) \<and> length (report c) = length (fires c))"

subsection \<open>Notifications\<close>

text \<open>The kind of a notification.\<close>

fun is_detected :: "notification \<Rightarrow> bool" where
  "is_detected (Detected fid t n) = True"
| "is_detected (Reported fid t n g) = False"

fun is_reported :: "notification \<Rightarrow> bool" where
  "is_reported (Detected fid t n) = False"
| "is_reported (Reported fid t n g) = True"

text \<open>
  The notifications one dictionary gives rise to in \<open>tock\<close> (none when the lookup
  raises), and the one change \<open>tock\<close> makes to a report dictionary.
\<close>

definition detected_of :: "pydict \<Rightarrow> notification list" where
  "detected_of d = (case detected_notification d of Inl e \<Rightarrow> [] | Inr ns \<Rightarrow> ns)"

definition reported_of :: "pydict \<Rightarrow> notification list" where
  "reported_of r = (case reported_notification r of Inl e \<Rightarrow> [] | Inr ns \<Rightarrow> ns)"

definition clear_firstReport :: "pydict \<Rightarrow> pydict" where
  "clear_firstReport r = r(k_firstReport \<mapsto> VBool False)"


text \<open>Every \<open>Reported\<close> notification of an output comes after a \<open>Detected\<close> one of the same fire id.\<close>

definition report_after_detect :: "notification list \<Rightarrow> bool" where
  "report_after_detect out =
     (\<forall>k < length out. is_reported (out ! k) \<longrightarrow>
        (\<exists>k' < k. is_detected (out ! k') \<and> n_fireId (out ! k') = n_fireId (out ! k)))"

text \<open>
  The number of \<open>Reported\<close> notifications for a fire id in an output, the number of
  \<open>FireStarted\<close> messages for it among the operations of a run, and the report
  dictionaries of that id that have not yet been notified: those that are not both
  latched and cleared.
\<close>

definition reported_count :: "int \<Rightarrow> notification list \<Rightarrow> nat" where
  "reported_count f out = length (filter (\<lambda>n. is_reported n \<and> n_fireId n = VInt f) out)"



definition pending :: "int \<Rightarrow> pydict \<Rightarrow> bool" where
  "pending f r =
     (r k_fireId = Some (VInt f) \<and>
      \<not> (r k_firstReporter \<noteq> Some VNone \<and> r k_firstReport = Some (VBool False)))"


definition pending_le :: "int \<Rightarrow> 's constellation \<Rightarrow> 's constellation \<Rightarrow> bool" where
  "pending_le f c c' =
     (length (report c') = length (report c) \<and>
      (\<forall>j < length (report c). pending f (report c' ! j) \<longrightarrow> pending f (report c ! j)))"


subsection \<open>Visibility along a run\<close>

text \<open>
  Whether \<open>tick\<close> finds satellite \<open>i\<close> in view of a fire at the time \<open>thn\<close>: the
  minimum elevation is the one \<open>tick\<close> has just computed for the satellite from its
  next position, and a failure of that computation ends the \<open>tick\<close>.
\<close>

definition min_elevation_at :: "'s env \<Rightarrow> int \<Rightarrow> nat \<Rightarrow> 's \<Rightarrow> error + real option" where
  "min_elevation_at env thn i satellite =
     bind_err (getitem_list (FIELD_OF_REGARD env) i)
       (compute_min_elevation (elevation_m (subpoint env satellite thn)))"

definition sees :: "'s env \<Rightarrow> int \<Rightarrow> nat \<Rightarrow> 's \<Rightarrow> fire \<Rightarrow> bool" where
  "sees env thn i satellite fire =
     (case min_elevation_at env thn i satellite of
        Inl e \<Rightarrow> False
      | Inr min_elevation \<Rightarrow>
          check_in_view env thn satellite
            (wgs84_latlon (fire_latitude fire) (fire_longitude fire)) min_elevation)"

text \<open>
  The detection dictionary of a fire after \<open>tick\<close> has gone through the first \<open>k\<close>
  satellites: each satellite in view passes it through the detection part.
\<close>

definition detect_step :: "'s env \<Rightarrow> int \<Rightarrow> val list \<Rightarrow> 's list \<Rightarrow> fire \<Rightarrow> nat \<Rightarrow> pydict \<Rightarrow> pydict" where
  "detect_step env thn nms sats fire i d =
     (if sees env thn i (sats ! i) fire then detect_upd (nms ! i) thn d else d)"

definition detect_by :: "'s env \<Rightarrow> int \<Rightarrow> val list \<Rightarrow> 's list \<Rightarrow> fire \<Rightarrow> nat \<Rightarrow> pydict \<Rightarrow> pydict" where
  "detect_by env thn nms sats fire k d = fold (detect_step env thn nms sats fire) [0..<k] d"

text \<open>
  A satellite is in view of fire \<open>j\<close> at the \<open>tick\<close> of length \<open>time_step\<close> made
  from \<open>c\<close>; and some satellite was in view of fire \<open>j\<close> at some \<open>tick\<close> of a run.
\<close>

definition seen_at :: "'s env \<Rightarrow> 's constellation \<Rightarrow> int \<Rightarrow> nat \<Rightarrow> bool" where
  "seen_at env c time_step j =
     (case time c of
        None \<Rightarrow> False
      | Some now \<Rightarrow>
          j < length (fires c) \<and>
          (\<exists>i < length (satellites c).
             sees env (now + time_step) i (satellites c ! i) (fires c ! j)))"

fun seen_in :: "'s env \<Rightarrow> op \<Rightarrow> 's constellation \<Rightarrow> nat \<Rightarrow> bool" where
  "seen_in env (Tick time_step) c j = seen_at env c time_step j"
| "seen_in env x c j = False"

fun ever_seen :: "'s env \<Rightarrow> op list \<Rightarrow> 's constellation \<Rightarrow> nat \<Rightarrow> bool" where
  "ever_seen env [] c j = False"
| "ever_seen env (x # xs) c j =
     (case step env x c of
        (out, Inl e) \<Rightarrow> False
      | (out, Inr c') \<Rightarrow> seen_in env x c j \<or> ever_seen env xs c' j)"

section \<open>A small constellation\<close>

text \<open>
  Two satellites \<open>A\<close> and \<open>B\<close> at 500 km with a field of regard of 180 degrees.
  A point of latitude \<open>l\<close> is seen at 45 degrees from time \<open>l\<close> on, and below
  the horizon before. \<open>example_c0\<close> is the object \<open>init\<close> makes of them.
\<close>

definition example_env :: "nat env" where
  "example_env =
     \<lparr>altaz_degrees = (\<lambda>t sat loc. if latitude loc \<le> of_int t then 45 else - 45),
      subpoint = (\<lambda>sat t. \<lparr>latitude = 0, longitude = of_int t, elevation_m = 500000\<rparr>),
      epoch = (\<lambda>sat. 0),
      EarthSatellite = (\<lambda>line1 line2 name. 0),
      FIELD_OF_REGARD = [180, 180]\<rparr>"

definition example_names :: "val list" where
  "example_names = [VStr ''A'', VStr ''B'']"

definition example_c0 :: "nat constellation" where
  "example_c0 =
     \<lparr>names = example_names, fires = [], grounds = None, satellites = [0, 1],
      detect = [], report = [], positions = [None, None], next_positions = [None, None],
      min_elevations_fire = [Some 0, Some 0], time = None, next_time = None\<rparr>"

definition station0 :: ground where
  "station0 = \<lparr>groundId = 0, ground_latitude = 2, ground_longitude = 0, elevAngle = 10,
               operational = True\<rparr>"

definition station5 :: ground where
  "station5 = \<lparr>groundId = 5, ground_latitude = 2, ground_longitude = 0, elevAngle = 10,
               operational = True\<rparr>"

definition fire1 :: fire where
  "fire1 = \<lparr>fireId = 1, start = 0, fire_latitude = 1, fire_longitude = 0\<rparr>"

definition example_c2 :: "nat constellation" where
  "example_c2 = on_fire fire1 (initialize example_env 0 example_c0)"

text \<open>
  A run of the small constellation: one ground station and one fire are announced,
  then three steps of one time unit. The fire (latitude 1) is in view of both
  satellites from time 1 on, the station (latitude 2) is in range from time 2 on.
\<close>

definition example_ops :: "op list" where
  "example_ops = [Initialize 0, OnGround station0, OnFire fire1,
                  Tick 1, Tock, Tick 1, Tock, Tick 1, Tock]"

text \<open>A list of names with a reserved key.\<close>

definition colliding_names :: "val list" where
  "colliding_names = [VStr ''fireId'', VStr ''B'']"

text \<open>
  Two more: the first satellite bears the name of the key \<open>firstDetector\<close>, and
  of the key \<open>firstDetect\<close>.
\<close>

definition detector_names :: "val list" where
  "detector_names = [VStr ''firstDetector'', VStr ''B'']"

definition flag_names :: "val list" where
  "flag_names = [VStr ''firstDetect'', VStr ''B'']"

section \<open>Properties\<close>

subsection \<open>Basic facts\<close>

lemma earth_mean_radius_pos: "0 < earth_mean_radius"
  by (simp add: earth_mean_radius_def earth_equatorial_radius_def earth_polar_radius_def)

lemma sin_radians_90: "sin (radians 90) = 1"
  by (simp add: radians_def)

lemma compute_min_elevation_180:
  assumes "0 \<le> altitude"
  shows "compute_min_elevation altitude 180 = Inr (Some 0)"
proof -
  define c where "c = (earth_mean_radius + altitude) / earth_mean_radius"
  have pos: "0 < earth_mean_radius + altitude"
    using assms earth_mean_radius_pos by linarith
  have ge: "1 \<le> c"
    using assms earth_mean_radius_pos by (simp add: c_def field_simps)
  have unf: "compute_min_elevation altitude 180 =
      (if c > 1 then Inr (Some 0)
       else if c < - 1 then Inr None
       else Inr (Some (degrees (arccos c))))"
    using pos by (simp add: compute_min_elevation_def sin_radians_90 Let_def c_def)
  show ?thesis
  proof (cases "1 < c")
    case True
    then show ?thesis by (simp add: unf)
  next
    case False
    with ge have "c = 1" by linarith
    then show ?thesis by (simp add: unf degrees_def)
  qed
qed

lemma bind_err_simps [simp]:
  "bind_err (Inl e) f = Inl e"
  "bind_err (Inr x) f = f x"
  by (simp_all add: bind_err_def)

lemma sin_radians_180: "sin (radians 180) = 0"
  by (simp add: radians_def)

lemma init_example: "init example_env example_names (Some [0, 1]) None = Inr example_c0"
  by (simp add: init_def enumerate_list_def initial_min_elevation_def example_env_def
      getitem_list_def compute_min_elevation_180 example_c0_def upt_rec[of 0 2] upt_rec[of 1 2])

subsection \<open>C8: the minimum elevation at a field of regard of 180 degrees and more\<close>

text \<open>
  C8 as stated fails: at a field of regard of 360 degrees, \<open>sin_eta\<close> is \<open>sin \<pi> = 0\<close>,
  the grazing cosine is 0 and the function returns 90 degrees, at any altitude above
  the surface.
\<close>

theorem C8_counterexample:
  "compute_min_elevation 500000 360 = Inr (Some 90) \<and>
   compute_min_elevation 500000 360 \<noteq> Inr (Some 0)"
  using earth_mean_radius_pos
  by (simp add: compute_min_elevation_def sin_radians_180 Let_def degrees_def)

lemma compute_min_elevation_degenerate:
  assumes "0 < earth_mean_radius + altitude"
    and "1 \<le> sin (radians (field_of_regard / 2))
               / (earth_mean_radius / (earth_mean_radius + altitude))"
  shows "compute_min_elevation altitude field_of_regard = Inr (Some 0)"
proof -
  define c where "c = sin (radians (field_of_regard / 2))
      / (earth_mean_radius / (earth_mean_radius + altitude))"
  have unf: "compute_min_elevation altitude field_of_regard =
      (if c > 1 then Inr (Some 0)
       else if c < - 1 then Inr None
       else Inr (Some (degrees (arccos c))))"
    using assms(1) by (simp add: compute_min_elevation_def Let_def c_def)
  from assms(2) have ge: "1 \<le> c" by (simp add: c_def)
  show ?thesis
  proof (cases "1 < c")
    case True
    then show ?thesis by (simp add: unf)
  next
    case False
    with ge have "c = 1" by linarith
    then show ?thesis by (simp add: unf degrees_def)
  qed
qed

text \<open>
  C8, amended: for every altitude at or above the surface and a field of regard of
  exactly 180 degrees, \<open>compute_min_elevation\<close> returns 0.0; in particular
  \<open>compute_min_elevation(500000, 180) = 0.0\<close>. More generally it returns 0.0, and
  does not fail, whenever the grazing cosine it computes is at least 1: above 1 by the
  guard, at 1 because the arc cosine is 0. A field of regard above 180 degrees does not
  by itself make the cosine that large.
\<close>

theorem C8_min_elevation_180:
  "(0 \<le> altitude \<longrightarrow> compute_min_elevation altitude 180 = Inr (Some 0)) \<and>
   compute_min_elevation 500000 180 = Inr (Some 0) \<and>
   (0 < earth_mean_radius + altitude \<and>
    1 \<le> sin (radians (field_of_regard / 2))
          / (earth_mean_radius / (earth_mean_radius + altitude))
      \<longrightarrow> compute_min_elevation altitude field_of_regard = Inr (Some 0))"
  by (simp add: compute_min_elevation_180 compute_min_elevation_degenerate)

theorem C8_min_elevation_180_witness:
  "(0::real) \<le> 200000 \<and> compute_min_elevation 200000 180 = Inr (Some 0) \<and>
   0 < earth_mean_radius + 200000 \<and>
   1 \<le> sin (radians 90) / (earth_mean_radius / (earth_mean_radius + 200000))"
proof -
  have pos: "0 < earth_mean_radius + 200000"
    using earth_mean_radius_pos by simp
  have ge: "1 \<le> sin (radians 90) / (earth_mean_radius / (earth_mean_radius + 200000))"
    using earth_mean_radius_pos by (simp add: sin_radians_90 field_simps)
  from C8_min_elevation_180 [of 200000 180] pos ge show ?thesis by simp
qed

subsection \<open>C3: \<open>check_in_range\<close> returns the row label, not the \<open>groundId\<close>\<close>

lemma check_in_range_rows_none:
  "\<forall>g \<in> set rows. \<not> link_closes env t satellite g \<Longrightarrow>
   check_in_range_rows env t satellite k rows = (False, VNone)"
  by (induction rows arbitrary: k) (auto simp: link_closes_def Let_def)

lemma check_in_range_rows_first:
  "i < length rows \<Longrightarrow> link_closes env t satellite (rows ! i) \<Longrightarrow>
   \<forall>i' < i. \<not> link_closes env t satellite (rows ! i') \<Longrightarrow>
   check_in_range_rows env t satellite k rows = (True, VInt (int (k + i)))"
proof (induction rows arbitrary: k i)
  case Nil
  then show ?case by simp
next
  case (Cons g rows)
  show ?case
  proof (cases i)
    case 0
    with Cons.prems show ?thesis by (simp add: link_closes_def Let_def)
  next
    case (Suc i')
    with Cons.prems have g: "\<not> link_closes env t satellite g" by auto
    have "check_in_range_rows env t satellite (Suc k) rows = (True, VInt (int (Suc k + i')))"
      using Cons.prems Suc by (intro Cons.IH) auto
    with g Suc show ?thesis by (auto simp: link_closes_def Let_def)
  qed
qed

text \<open>
  C3: the claim agrees with the docstring of \<open>check_in_range\<close> (\<open>groundId of the
  ground station currently in comm range\<close>), and the code returns something else: the
  label \<open>k\<close> of the row. With a single operational station of \<open>groundId\<close> 5 in
  range, the call returns \<open>(True, 0)\<close>.
\<close>

theorem C3_check_in_range_row_label:
  "check_in_range example_env 3 0 (Some [station5]) = Inr (True, VInt 0) \<and>
   VInt 0 \<noteq> VInt (groundId station5)"
  by (simp add: check_in_range_def example_env_def station5_def get_elevation_angle_def
      wgs84_latlon_def)

subsection \<open>C4: \<open>on_ground\<close> called twice with one \<open>groundId\<close>\<close>

text \<open>
  C4: the claim is what the code sets out to do (its first branch assigns the four
  fields and prints \<open>Station ... updated\<close>), and the code does not do it. After
  \<open>initialize\<close>, a station of \<open>groundId\<close> 0 sent twice, the second time not
  operational, leaves one row, still operational: the update is lost. A station of
  \<open>groundId\<close> 5 sent twice leaves two rows: 5 is not a row label.
\<close>

theorem C4_on_ground_twice:
  "(case snd (run example_env
       [Initialize 0, OnGround station0, OnGround (station0\<lparr>operational := False\<rparr>)]
       example_c0) of Inl e \<Rightarrow> None | Inr c \<Rightarrow> grounds c) = Some [station0] \<and>
   (case snd (run example_env
       [Initialize 0, OnGround station5, OnGround (station5\<lparr>operational := False\<rparr>)]
       example_c0) of Inl e \<Rightarrow> None | Inr c \<Rightarrow> grounds c)
     = Some [station5, station5\<lparr>operational := False\<rparr>]"
  by (simp add: initialize_def entity_initialize_def on_ground_def series_contains_def
      station0_def station5_def Let_def)

subsection \<open>Keys and names\<close>

lemma key_distinct [simp]:
  "k_fireId \<noteq> k_firstDetect" "k_fireId \<noteq> k_firstDetector" "k_fireId \<noteq> k_firstReport"
  "k_fireId \<noteq> k_firstReporter" "k_fireId \<noteq> k_firstReportedTo"
  "k_firstDetect \<noteq> k_fireId" "k_firstDetect \<noteq> k_firstDetector"
  "k_firstDetector \<noteq> k_fireId" "k_firstDetector \<noteq> k_firstDetect"
  "k_firstReport \<noteq> k_fireId" "k_firstReport \<noteq> k_firstReporter"
  "k_firstReport \<noteq> k_firstReportedTo"
  "k_firstReporter \<noteq> k_fireId" "k_firstReporter \<noteq> k_firstReport"
  "k_firstReporter \<noteq> k_firstReportedTo"
  "k_firstReportedTo \<noteq> k_fireId" "k_firstReportedTo \<noteq> k_firstReport"
  "k_firstReportedTo \<noteq> k_firstReporter"
  by (simp_all add: k_fireId_def k_firstDetect_def k_firstDetector_def k_firstReport_def
      k_firstReporter_def k_firstReportedTo_def)

lemma key_not_None [simp]:
  "k_fireId \<noteq> VNone" "k_firstDetect \<noteq> VNone" "k_firstDetector \<noteq> VNone"
  "k_firstReport \<noteq> VNone" "k_firstReporter \<noteq> VNone" "k_firstReportedTo \<noteq> VNone"
  by (simp_all add: k_fireId_def k_firstDetect_def k_firstDetector_def k_firstReport_def
      k_firstReporter_def k_firstReportedTo_def)

lemma names_okD:
  assumes "names_ok nms" "n \<in> set nms"
  shows "n \<noteq> VNone" "n \<noteq> k_fireId" "n \<noteq> k_firstDetect" "n \<noteq> k_firstDetector"
    "n \<noteq> k_firstReport" "n \<noteq> k_firstReporter" "n \<noteq> k_firstReportedTo"
    "k_fireId \<noteq> n" "k_firstDetect \<noteq> n" "k_firstDetector \<noteq> n"
    "k_firstReport \<noteq> n" "k_firstReporter \<noteq> n" "k_firstReportedTo \<noteq> n"
proof -
  from assms have n: "is_name n" and r: "n \<notin> set reserved_keys"
    by (simp_all add: names_ok_def list_all_iff)
  from n show "n \<noteq> VNone" by (cases n) simp_all
  from r show "n \<noteq> k_fireId" "n \<noteq> k_firstDetect" "n \<noteq> k_firstDetector"
    "n \<noteq> k_firstReport" "n \<noteq> k_firstReporter" "n \<noteq> k_firstReportedTo"
    by (simp_all add: reserved_keys_def)
  then show "k_fireId \<noteq> n" "k_firstDetect \<noteq> n" "k_firstDetector \<noteq> n"
    "k_firstReport \<noteq> n" "k_firstReporter \<noteq> n" "k_firstReportedTo \<noteq> n"
    by (simp_all add: neq_commute)
qed

lemma fromkeys_apply: "fromkeys ks k = (if k \<in> set ks then Some VNone else None)"
  by (induction ks) (auto simp: fromkeys_def)

subsection \<open>Loops\<close>

lemma fold_err_append:
  "fold_err f (xs @ ys) s = (case fold_err f xs s of Inl e \<Rightarrow> Inl e | Inr s' \<Rightarrow> fold_err f ys s')"
  by (induction xs arbitrary: s) (auto split: sum.splits)

lemma enumerate_list_snoc: "enumerate_list (xs @ [x]) = enumerate_list xs @ [(length xs, x)]"
  by (simp add: enumerate_list_def)

lemma enumerate_list_Nil [simp]: "enumerate_list [] = []"
  by (simp add: enumerate_list_def)

lemma fold_err_enum_inv:
  assumes "fold_err f (enumerate_list xs) s = Inr s'"
    and "P 0 s"
    and "\<And>k t t'. k < length xs \<Longrightarrow> P k t \<Longrightarrow> f (k, xs ! k) t = Inr t' \<Longrightarrow> P (Suc k) t'"
  shows "P (length xs) s'"
  using assms
proof (induction xs arbitrary: s' rule: rev_induct)
  case Nil
  then show ?case by simp
next
  case (snoc x xs)
  from snoc.prems(1) obtain t where t: "fold_err f (enumerate_list xs) s = Inr t"
    and last: "f (length xs, x) t = Inr s'"
    by (auto simp: enumerate_list_snoc fold_err_append split: sum.splits)
  have "P (length xs) t"
  proof (rule snoc.IH[OF t snoc.prems(2)])
    fix k u u'
    assume "k < length xs" "P k u" "f (k, xs ! k) u = Inr u'"
    then show "P (Suc k) u'"
      using snoc.prems(3)[of k u u'] by (simp add: nth_append)
  qed
  then show ?case
    using snoc.prems(3)[of "length xs" t s'] last by simp
qed

lemma fold_err_enum_pres:
  assumes "fold_err f (enumerate_list xs) s = Inr s'"
    and "P s"
    and "\<And>k t t'. k < length xs \<Longrightarrow> P t \<Longrightarrow> f (k, xs ! k) t = Inr t' \<Longrightarrow> P t'"
  shows "P s'"
  by (rule fold_err_enum_inv[where P = "\<lambda>k. P", OF assms(1) assms(2)]) (rule assms(3))

subsection \<open>The loop bodies of \<open>tick\<close>\<close>

lemma bind_err_Inr_iff: "bind_err m f = Inr y \<longleftrightarrow> (\<exists>x. m = Inr x \<and> f x = Inr y)"
  by (cases m) simp_all

lemma getitem_list_Inr: "getitem_list xs i = Inr x \<longleftrightarrow> i < length xs \<and> x = xs ! i"
  by (auto simp: getitem_list_def)

lemma setitem_list_Inr: "setitem_list xs i v = Inr ys \<longleftrightarrow> i < length xs \<and> ys = xs[i := v]"
  by (auto simp: setitem_list_def)

lemma getitem_Inr: "getitem d k = Inr v \<longleftrightarrow> d k = Some v"
  by (auto simp: getitem_def split: option.splits)

lemma detect_latch_eq: "detect_latch thn name d = Inr d' \<Longrightarrow> d' = detect_upd name thn d"
  unfolding detect_latch_def detect_upd_def Let_def
  by (auto simp: bind_err_Inr_iff getitem_Inr simp del: fun_upd_apply split: if_splits)

lemma report_latch_eq: "report_latch thn name gid r = Inr r' \<Longrightarrow> r' = report_upd name thn gid r"
  unfolding report_latch_def report_upd_def Let_def
  by (auto simp: bind_err_Inr_iff getitem_Inr simp del: fun_upd_apply split: if_splits)

lemma tick_detect_eq:
  assumes "tick_detect thn i j c = Inr c'"
  shows "j < length (detect c) \<and> i < length (names c) \<and>
         c' = c\<lparr>detect := (detect c)[j := detect_upd (names c ! i) thn (detect c ! j)]\<rparr>"
  using assms unfolding tick_detect_def
  by (auto simp: bind_err_Inr_iff getitem_list_Inr dest: detect_latch_eq)

lemma tick_report_eq:
  assumes "tick_report env thn i satellite j c = Inr c'"
  shows "j < length (detect c) \<and> i < length (names c) \<and>
         (c' = c \<or>
          (\<exists>gid v. j < length (report c) \<and>
             (detect c ! j) (names c ! i) = Some v \<and> v \<noteq> VNone \<and>
             (report c ! j) (names c ! i) = Some VNone \<and>
             check_in_range env thn satellite (grounds c) = Inr (True, gid) \<and>
             c' = c\<lparr>report := (report c)[j := report_upd (names c ! i) thn gid (report c ! j)]\<rparr>))"
  using assms unfolding tick_report_def
  by (auto simp: bind_err_Inr_iff getitem_list_Inr getitem_Inr dest!: report_latch_eq
      split: if_splits)

subsection \<open>The two latches on a dictionary\<close>

lemma detect_upd_apply:
  "k \<noteq> k_firstDetect \<Longrightarrow> k \<noteq> k_firstDetector \<Longrightarrow>
   detect_upd name thn d k = (if k = name then Some (VTime thn) else d k)"
  by (simp add: detect_upd_def Let_def)

lemma detect_upd_firstDetector:
  "name \<noteq> k_firstDetector \<Longrightarrow>
   detect_upd name thn d k_firstDetector =
     (if d k_firstDetector = Some VNone then Some name else d k_firstDetector)"
  by (simp add: detect_upd_def Let_def)

lemma detect_upd_firstDetect:
  "name \<noteq> k_firstDetector \<Longrightarrow> name \<noteq> k_firstDetect \<Longrightarrow>
   detect_upd name thn d k_firstDetect =
     (if d k_firstDetector = Some VNone then Some (VBool True) else d k_firstDetect)"
  by (simp add: detect_upd_def Let_def)

lemma report_upd_apply:
  "k \<noteq> k_firstReport \<Longrightarrow> k \<noteq> k_firstReporter \<Longrightarrow> k \<noteq> k_firstReportedTo \<Longrightarrow>
   report_upd name thn gid r k = (if k = name then Some (VTime thn) else r k)"
  by (simp add: report_upd_def Let_def)

lemma report_upd_firstReporter:
  "name \<noteq> k_firstReporter \<Longrightarrow>
   report_upd name thn gid r k_firstReporter =
     (if r k_firstReporter = Some VNone then Some name else r k_firstReporter)"
  by (simp add: report_upd_def Let_def)

lemma report_upd_firstReport:
  "name \<noteq> k_firstReporter \<Longrightarrow> name \<noteq> k_firstReport \<Longrightarrow>
   report_upd name thn gid r k_firstReport =
     (if r k_firstReporter = Some VNone then Some (VBool True) else r k_firstReport)"
  by (simp add: report_upd_def Let_def)

lemma report_upd_firstReportedTo:
  "name \<noteq> k_firstReporter \<Longrightarrow> name \<noteq> k_firstReportedTo \<Longrightarrow>
   report_upd name thn gid r k_firstReportedTo =
     (if r k_firstReporter = Some VNone then Some gid else r k_firstReportedTo)"
  by (simp add: report_upd_def Let_def)

lemma detect_upd_name:
  assumes "names_ok nms" "n \<in> set nms"
  shows "detect_upd name thn d n = (if n = name then Some (VTime thn) else d n)"
  using names_okD[OF assms] by (simp add: detect_upd_apply)

lemma report_upd_name:
  assumes "names_ok nms" "n \<in> set nms"
  shows "report_upd name thn gid r n = (if n = name then Some (VTime thn) else r n)"
  using names_okD[OF assms] by (simp add: report_upd_apply)

lemma detect_upd_ok:
  assumes ok: "names_ok nms" and name: "name \<in> set nms" and d: "detect_ok nms d"
  shows "detect_ok nms (detect_upd name thn d)"
proof -
  note nm = names_okD[OF ok name]
  let ?d = "detect_upd name thn d"
  have fid: "?d k_fireId = d k_fireId"
    using nm by (simp add: detect_upd_apply)
  have ent: "\<forall>n \<in> set nms. \<exists>v. ?d n = Some v \<and> timestamp v"
    using d by (auto simp: detect_ok_def detect_upd_name[OF ok])
  have own: "?d name = Some (VTime thn)"
    by (simp add: detect_upd_name[OF ok name])
  from d consider
      (fresh) "d k_firstDetect = Some (VBool False)" "d k_firstDetector = Some VNone"
    | (latched) n where "d k_firstDetect = Some (VBool True)" "n \<in> set nms"
        "d k_firstDetector = Some n" "d n \<noteq> Some VNone"
    by (auto simp: detect_ok_def)
  then have "?d k_firstDetect = Some (VBool True) \<and>
      (\<exists>n \<in> set nms. ?d k_firstDetector = Some n \<and> ?d n \<noteq> Some VNone)"
  proof cases
    case fresh
    then have "?d k_firstDetect = Some (VBool True)" "?d k_firstDetector = Some name"
      using nm by (simp_all add: detect_upd_firstDetect detect_upd_firstDetector)
    with own name show ?thesis by auto
  next
    case latched
    from latched(2) have "n \<noteq> VNone" by (rule names_okD(1)[OF ok])
    with latched have "?d k_firstDetect = Some (VBool True)" "?d k_firstDetector = Some n"
      using nm by (simp_all add: detect_upd_firstDetect detect_upd_firstDetector)
    moreover have "?d n \<noteq> Some VNone"
      using latched by (simp add: detect_upd_name[OF ok latched(2)])
    ultimately show ?thesis using latched(2) by auto
  qed
  with fid ent d show ?thesis
    by (simp add: detect_ok_def)
qed

lemma detect_upd_report_ok:
  assumes ok: "names_ok nms" and name: "name \<in> set nms" and r: "report_ok nms d r"
  shows "report_ok nms (detect_upd name thn d) r"
proof -
  note nm = names_okD[OF ok name]
  have fid: "detect_upd name thn d k_fireId = d k_fireId"
    using nm by (simp add: detect_upd_apply)
  have "\<forall>n \<in> set nms. \<exists>v. r n = Some v \<and> timestamp v \<and>
      (v \<noteq> VNone \<longrightarrow> detect_upd name thn d n \<noteq> Some VNone)"
    using r by (auto simp: report_ok_def detect_upd_name[OF ok])
  with fid r show ?thesis
    by (simp add: report_ok_def)
qed

lemma report_upd_ok:
  assumes ok: "names_ok nms" and name: "name \<in> set nms" and r: "report_ok nms d r"
    and seen: "d name = Some v" "v \<noteq> VNone"
  shows "report_ok nms d (report_upd name thn gid r)"
proof -
  note nm = names_okD[OF ok name]
  let ?r = "report_upd name thn gid r"
  have fid: "?r k_fireId = d k_fireId"
    using nm r by (simp add: report_upd_apply report_ok_def)
  have ent: "\<forall>n \<in> set nms. \<exists>v. ?r n = Some v \<and> timestamp v \<and> (v \<noteq> VNone \<longrightarrow> d n \<noteq> Some VNone)"
    using r seen by (auto simp: report_ok_def report_upd_name[OF ok])
  have own: "?r name = Some (VTime thn)"
    by (simp add: report_upd_name[OF ok name])
  from r obtain b g where b: "r k_firstReport = Some (VBool b)"
      "b \<longrightarrow> r k_firstReporter \<noteq> Some VNone" and g: "r k_firstReportedTo = Some g"
    by (auto simp: report_ok_def)
  from r consider (fresh) "r k_firstReporter = Some VNone"
    | (latched) n where "n \<in> set nms" "r k_firstReporter = Some n" "r n \<noteq> Some VNone"
    by (auto simp: report_ok_def)
  then have "(\<exists>b. ?r k_firstReport = Some (VBool b) \<and> (b \<longrightarrow> ?r k_firstReporter \<noteq> Some VNone)) \<and>
      (\<exists>g. ?r k_firstReportedTo = Some g) \<and>
      (\<exists>n \<in> set nms. ?r k_firstReporter = Some n \<and> ?r n \<noteq> Some VNone)"
  proof cases
    case fresh
    then have "?r k_firstReport = Some (VBool True)" "?r k_firstReporter = Some name"
      "?r k_firstReportedTo = Some gid"
      using nm by (simp_all add: report_upd_firstReport report_upd_firstReporter
          report_upd_firstReportedTo)
    with own name nm(1) show ?thesis by auto
  next
    case latched
    from latched(1) have "n \<noteq> VNone" by (rule names_okD(1)[OF ok])
    with latched have "?r k_firstReport = r k_firstReport" "?r k_firstReporter = Some n"
      "?r k_firstReportedTo = r k_firstReportedTo"
      using nm by (simp_all add: report_upd_firstReport report_upd_firstReporter
          report_upd_firstReportedTo)
    moreover have "?r n \<noteq> Some VNone"
      using latched by (simp add: report_upd_name[OF ok latched(1)])
    ultimately show ?thesis using latched(1) b g \<open>n \<noteq> VNone\<close> by auto
  qed
  with fid ent show ?thesis
    by (simp add: report_ok_def)
qed

subsection \<open>\<open>tick\<close> keeps the object consistent\<close>

lemma same_base_refl [simp]: "same_base c c"
  by (simp add: same_base_def)

lemma same_base_trans: "same_base a b \<Longrightarrow> same_base b c \<Longrightarrow> same_base a c"
  by (simp add: same_base_def)

lemma tick_detect_consistent:
  assumes c: "consistent c" and t: "tick_detect thn i j c = Inr c'"
  shows "consistent c'"
proof -
  let ?nms = "names c"
  let ?name = "names c ! i"
  from tick_detect_eq[OF t] have j: "j < length (detect c)" and i: "i < length ?nms"
    and c': "c' = c\<lparr>detect := (detect c)[j := detect_upd ?name thn (detect c ! j)]\<rparr>"
    by simp_all
  from c have ok: "names_ok ?nms" and len: "length (detect c) = length (fires c)"
    "length (report c) = length (fires c)"
    by (simp_all add: consistent_def)
  from i have name: "?name \<in> set ?nms" by simp
  have "detect_ok ?nms (detect c' ! j') \<and> report_ok ?nms (detect c' ! j') (report c' ! j') \<and>
        (detect c' ! j') k_fireId = Some (VInt (fireId (fires c' ! j')))"
    if j': "j' < length (fires c)" for j'
  proof -
    from c j' have old: "detect_ok ?nms (detect c ! j')"
      "report_ok ?nms (detect c ! j') (report c ! j')"
      "(detect c ! j') k_fireId = Some (VInt (fireId (fires c ! j')))"
      by (simp_all add: consistent_def)
    show ?thesis
    proof (cases "j' = j")
      case True
      have "detect_upd ?name thn (detect c ! j) k_fireId = (detect c ! j) k_fireId"
        using names_okD[OF ok name] by (simp add: detect_upd_apply)
      with True old j show ?thesis
        by (simp add: c' detect_upd_ok[OF ok name] detect_upd_report_ok[OF ok name])
    next
      case False
      with old show ?thesis by (simp add: c')
    qed
  qed
  with ok len show ?thesis
    by (simp add: consistent_def c')
qed

lemma tick_detect_base:
  "tick_detect thn i j c = Inr c' \<Longrightarrow>
   same_base c c' \<and> min_elevations_fire c' = min_elevations_fire c \<and> report c' = report c"
  by (drule tick_detect_eq) (auto simp: same_base_def)

lemma tick_report_consistent:
  assumes c: "consistent c" and t: "tick_report env thn i satellite j c = Inr c'"
  shows "consistent c'"
proof -
  let ?nms = "names c"
  let ?name = "names c ! i"
  from tick_report_eq[OF t] have j: "j < length (detect c)" and i: "i < length ?nms"
    and alt: "c' = c \<or>
      (\<exists>gid v. j < length (report c) \<and> (detect c ! j) ?name = Some v \<and> v \<noteq> VNone \<and>
         c' = c\<lparr>report := (report c)[j := report_upd ?name thn gid (report c ! j)]\<rparr>)"
    by auto
  from c have ok: "names_ok ?nms" and len: "length (detect c) = length (fires c)"
    "length (report c) = length (fires c)"
    by (simp_all add: consistent_def)
  from i have name: "?name \<in> set ?nms" by simp
  from alt show ?thesis
  proof
    assume "c' = c"
    with c show ?thesis by simp
  next
    assume "\<exists>gid v. j < length (report c) \<and> (detect c ! j) ?name = Some v \<and> v \<noteq> VNone \<and>
         c' = c\<lparr>report := (report c)[j := report_upd ?name thn gid (report c ! j)]\<rparr>"
    then obtain gid v where jr: "j < length (report c)"
      and seen: "(detect c ! j) ?name = Some v" "v \<noteq> VNone"
      and c': "c' = c\<lparr>report := (report c)[j := report_upd ?name thn gid (report c ! j)]\<rparr>"
      by blast
    have "detect_ok ?nms (detect c' ! j') \<and> report_ok ?nms (detect c' ! j') (report c' ! j') \<and>
          (detect c' ! j') k_fireId = Some (VInt (fireId (fires c' ! j')))"
      if j': "j' < length (fires c)" for j'
    proof -
      from c j' have old: "detect_ok ?nms (detect c ! j')"
        "report_ok ?nms (detect c ! j') (report c ! j')"
        "(detect c ! j') k_fireId = Some (VInt (fireId (fires c ! j')))"
        by (simp_all add: consistent_def)
      show ?thesis
      proof (cases "j' = j")
        case True
        with old jr seen show ?thesis
          by (simp add: c' report_upd_ok[OF ok name])
      next
        case False
        with old show ?thesis by (simp add: c')
      qed
    qed
    with ok len show ?thesis
      by (simp add: consistent_def c')
  qed
qed

lemma tick_report_base:
  "tick_report env thn i satellite j c = Inr c' \<Longrightarrow>
   same_base c c' \<and> min_elevations_fire c' = min_elevations_fire c \<and> detect c' = detect c"
  by (drule tick_report_eq) (auto simp: same_base_def)

lemma tick_fire_eq:
  assumes "tick_fire env thn i satellite (j, fire) c = Inr c'"
  shows "\<exists>c1. i < length (min_elevations_fire c) \<and>
           (if check_in_view env thn satellite
                 (wgs84_latlon (fire_latitude fire) (fire_longitude fire))
                 (min_elevations_fire c ! i)
            then tick_detect thn i j c = Inr c1 else c1 = c) \<and>
           tick_report env thn i satellite j c1 = Inr c'"
  using assms unfolding tick_fire_def Let_def
  by (auto simp: bind_err_Inr_iff getitem_list_Inr split: if_splits)

lemma tick_fire_consistent:
  assumes "consistent c" "tick_fire env thn i satellite (j, fire) c = Inr c'"
  shows "consistent c'"
proof -
  from tick_fire_eq[OF assms(2)] obtain c1 where
    1: "if check_in_view env thn satellite
                 (wgs84_latlon (fire_latitude fire) (fire_longitude fire))
                 (min_elevations_fire c ! i)
            then tick_detect thn i j c = Inr c1 else c1 = c"
    and 2: "tick_report env thn i satellite j c1 = Inr c'"
    by blast
  from 1 assms(1) have "consistent c1"
    by (auto split: if_splits intro: tick_detect_consistent)
  then show ?thesis using 2 by (rule tick_report_consistent)
qed

lemma tick_fire_base:
  assumes "tick_fire env thn i satellite (j, fire) c = Inr c'"
  shows "same_base c c' \<and> min_elevations_fire c' = min_elevations_fire c"
proof -
  from tick_fire_eq[OF assms] obtain c1 where
    1: "if check_in_view env thn satellite
                 (wgs84_latlon (fire_latitude fire) (fire_longitude fire))
                 (min_elevations_fire c ! i)
            then tick_detect thn i j c = Inr c1 else c1 = c"
    and 2: "tick_report env thn i satellite j c1 = Inr c'"
    by blast
  from 1 have "same_base c c1 \<and> min_elevations_fire c1 = min_elevations_fire c"
    by (auto split: if_splits dest: tick_detect_base)
  with tick_report_base[OF 2] show ?thesis
    by (auto intro: same_base_trans)
qed

lemma tick_satellite_eq:
  assumes "tick_satellite env thn (i, satellite) c = Inr c'"
  shows "\<exists>p me. i < length (next_positions c) \<and> next_positions c ! i = Some p \<and>
           i < length (FIELD_OF_REGARD env) \<and>
           compute_min_elevation (elevation_m p) (FIELD_OF_REGARD env ! i) = Inr me \<and>
           i < length (min_elevations_fire c) \<and>
           fold_err (tick_fire env thn i satellite) (enumerate_list (fires c))
             (c\<lparr>min_elevations_fire := (min_elevations_fire c)[i := me]\<rparr>) = Inr c'"
  using assms unfolding tick_satellite_def elevation_of_def
  by (auto simp: bind_err_Inr_iff getitem_list_Inr setitem_list_Inr split: option.splits)

lemma tick_fires_consistent:
  assumes "fold_err (tick_fire env thn i satellite) (enumerate_list fs) c = Inr c'"
    and "consistent c"
  shows "consistent c'"
  by (rule fold_err_enum_pres[where P = consistent, OF assms])
    (rule tick_fire_consistent)

lemma tick_fires_base:
  assumes "fold_err (tick_fire env thn i satellite) (enumerate_list fs) c = Inr c'"
  shows "same_base c c' \<and> min_elevations_fire c' = min_elevations_fire c"
proof (rule fold_err_enum_pres[where P = "\<lambda>t. same_base c t \<and>
      min_elevations_fire t = min_elevations_fire c", OF assms])
  show "same_base c c \<and> min_elevations_fire c = min_elevations_fire c" by simp
next
  fix k t t'
  assume "same_base c t \<and> min_elevations_fire t = min_elevations_fire c"
    and "tick_fire env thn i satellite (k, fs ! k) t = Inr t'"
  then show "same_base c t' \<and> min_elevations_fire t' = min_elevations_fire c"
    using tick_fire_base[of env thn i satellite k "fs ! k" t t']
    by (auto intro: same_base_trans)
qed

lemma consistent_min_elevations [simp]:
  "consistent (c\<lparr>min_elevations_fire := m\<rparr>) = consistent c"
  by (simp add: consistent_def)

lemma tick_satellite_consistent:
  assumes "consistent c" "tick_satellite env thn (i, satellite) c = Inr c'"
  shows "consistent c'"
  using tick_satellite_eq[OF assms(2)] assms(1)
  by (auto dest!: tick_fires_consistent)

lemma tick_satellite_base:
  assumes "tick_satellite env thn (i, satellite) c = Inr c'"
  shows "same_base c c' \<and> length (min_elevations_fire c') = length (min_elevations_fire c)"
  using tick_satellite_eq[OF assms]
  by (auto dest!: tick_fires_base simp: same_base_def)

lemma tick_eq:
  assumes "tick env time_step c = Inr c'"
  shows "\<exists>now. time c = Some now \<and>
     fold_err (tick_satellite env (now + time_step)) (enumerate_list (satellites c))
       (c\<lparr>next_time := Some (now + time_step),
           next_positions := map (\<lambda>satellite. Some (subpoint env satellite (now + time_step)))
                               (satellites c)\<rparr>) = Inr c'"
  using assms unfolding tick_def entity_tick_def time_plus_def Let_def
  by (auto simp: bind_err_Inr_iff split: option.splits)

lemma tick_consistent:
  assumes "consistent c" "tick env time_step c = Inr c'"
  shows "consistent c'"
proof -
  from tick_eq[OF assms(2)] obtain now where
    f: "fold_err (tick_satellite env (now + time_step)) (enumerate_list (satellites c))
       (c\<lparr>next_time := Some (now + time_step),
           next_positions := map (\<lambda>satellite. Some (subpoint env satellite (now + time_step)))
                               (satellites c)\<rparr>) = Inr c'"
    by blast
  show ?thesis
  proof (rule fold_err_enum_pres[where P = consistent, OF f])
    show "consistent (c\<lparr>next_time := Some (now + time_step),
           next_positions := map (\<lambda>satellite. Some (subpoint env satellite (now + time_step)))
                               (satellites c)\<rparr>)"
      using assms(1) by (simp add: consistent_def)
  next
    fix k t t'
    assume "consistent t"
      "tick_satellite env (now + time_step) (k, satellites c ! k) t = Inr t'"
    then show "consistent t'" by (rule tick_satellite_consistent)
  qed
qed

subsection \<open>The other operations keep the object consistent\<close>

lemma on_fire_consistent:
  assumes "consistent c"
  shows "consistent (on_fire started c)"
proof -
  let ?nms = "names c"
  define d where "d = (fromkeys ?nms)(k_fireId \<mapsto> VInt (fireId started),
      k_firstDetect \<mapsto> VBool False, k_firstDetector \<mapsto> VNone)"
  define r where "r = (fromkeys ?nms)(k_fireId \<mapsto> VInt (fireId started),
      k_firstReport \<mapsto> VBool False, k_firstReporter \<mapsto> VNone, k_firstReportedTo \<mapsto> VNone)"
  from assms have ok: "names_ok ?nms" and len: "length (detect c) = length (fires c)"
    "length (report c) = length (fires c)"
    by (simp_all add: consistent_def)
  have dn: "d n = Some VNone" and rn: "r n = Some VNone" if "n \<in> set ?nms" for n
    using names_okD[OF ok that] that by (simp_all add: fromkeys_apply d_def r_def)
  have dk: "d k_fireId = Some (VInt (fireId started))" "d k_firstDetect = Some (VBool False)"
    "d k_firstDetector = Some VNone"
    by (simp_all add: d_def)
  have rk: "r k_fireId = Some (VInt (fireId started))" "r k_firstReport = Some (VBool False)"
    "r k_firstReporter = Some VNone" "r k_firstReportedTo = Some VNone"
    by (simp_all add: r_def)
  have d: "detect_ok ?nms d"
    unfolding detect_ok_def by (simp add: dn dk)
  have r: "report_ok ?nms d r"
    unfolding report_ok_def by (auto simp: dn dk rn rk)
  have c': "on_fire started c =
      c\<lparr>fires := fires c @ [started], detect := detect c @ [d], report := report c @ [r]\<rparr>"
    by (simp add: on_fire_def Let_def d_def r_def)
  have "detect_ok ?nms ((detect c @ [d]) ! j) \<and>
        report_ok ?nms ((detect c @ [d]) ! j) ((report c @ [r]) ! j) \<and>
        ((detect c @ [d]) ! j) k_fireId = Some (VInt (fireId ((fires c @ [started]) ! j)))"
    if j: "j < Suc (length (fires c))" for j
  proof (cases "j < length (fires c)")
    case True
    with assms len show ?thesis
      by (simp add: consistent_def nth_append)
  next
    case False
    with j have "j = length (fires c)" by simp
    with len d r dk show ?thesis
      by (simp add: nth_append)
  qed
  with ok len show ?thesis
    unfolding c' by (simp add: consistent_def)
qed

lemma initialize_consistent: "consistent c \<Longrightarrow> consistent (initialize env init_time c)"
  by (simp add: initialize_def entity_initialize_def Let_def consistent_def)

lemma on_ground_consistent:
  "consistent c \<Longrightarrow> on_ground location c = Inr c' \<Longrightarrow> consistent c'"
  by (auto simp: on_ground_def consistent_def split: option.splits if_splits)

lemma tock_reported_eq:
  "tock_reported rs = (out, Inr rs') \<Longrightarrow> rs' = map clear_firstReport rs"
  by (induction rs arbitrary: out rs')
    (auto simp: clear_firstReport_def split: sum.splits prod.splits)

lemma tock_eq:
  assumes "tock c = (out, Inr c')"
  shows "c' = c\<lparr>positions := next_positions c, report := map clear_firstReport (report c),
                time := next_time c\<rparr>"
  using assms unfolding tock_def entity_tock_def Let_def
  by (auto split: prod.splits option.splits sum.splits dest!: tock_reported_eq)

lemma clear_firstReport_apply:
  "clear_firstReport r k_firstReport = Some (VBool False)"
  "k \<noteq> k_firstReport \<Longrightarrow> clear_firstReport r k = r k"
  by (simp_all add: clear_firstReport_def)

lemma clear_firstReport_ok:
  assumes "names_ok nms" "report_ok nms d r"
  shows "report_ok nms d (clear_firstReport r)"
proof -
  have eq: "clear_firstReport r n = r n" if "n \<in> set nms" for n
    using names_okD[OF assms(1) that] by (simp add: clear_firstReport_apply)
  from assms(2) show ?thesis
    unfolding report_ok_def by (auto simp: eq clear_firstReport_apply)
qed

lemma tock_consistent:
  assumes "consistent c" "tock c = (out, Inr c')"
  shows "consistent c'"
  using assms(1) unfolding tock_eq[OF assms(2)]
  by (simp add: consistent_def clear_firstReport_ok)

lemma step_consistent:
  assumes "consistent c" "step env x c = (out, Inr c')"
  shows "consistent c'"
proof (cases x)
  case (Initialize t)
  with assms show ?thesis by (auto intro: initialize_consistent)
next
  case (Tick dt)
  with assms show ?thesis by (auto intro: tick_consistent)
next
  case Tock
  with assms show ?thesis by (auto intro: tock_consistent)
next
  case (OnFire f)
  with assms show ?thesis by (auto intro: on_fire_consistent)
next
  case (OnGround g)
  with assms show ?thesis by (auto intro: on_ground_consistent)
qed

lemma run_Cons_Inr:
  assumes "run env (x # xs) c = (out, Inr c')"
  shows "\<exists>out1 c1 out2. step env x c = (out1, Inr c1) \<and> run env xs c1 = (out2, Inr c') \<and>
           out = out1 @ out2"
  using assms by (auto split: prod.splits sum.splits)

lemma run_consistent:
  "consistent c \<Longrightarrow> run env ops c = (out, Inr c') \<Longrightarrow> consistent c'"
proof (induction ops arbitrary: c out)
  case Nil
  then show ?case by simp
next
  case (Cons x xs)
  from run_Cons_Inr[OF Cons.prems(2)] obtain out1 c1 out2 where
    s: "step env x c = (out1, Inr c1)" and r: "run env xs c1 = (out2, Inr c')"
    by blast
  from Cons.prems(1) s have "consistent c1" by (rule step_consistent)
  then show ?case using r by (rule Cons.IH)
qed

lemma init_eq:
  assumes "init env nms ES tles = Inr c0"
  shows "names c0 = nms \<and> fires c0 = [] \<and> detect c0 = [] \<and> report c0 = [] \<and>
         grounds c0 = None \<and> time c0 = None \<and>
         length (positions c0) = length (satellites c0) \<and>
         length (next_positions c0) = length (satellites c0)"
  using assms unfolding init_def Let_def
  by (auto simp: bind_err_Inr_iff)

lemma init_consistent:
  assumes "names_ok nms" "init env nms ES tles = Inr c0"
  shows "consistent c0"
  using init_eq[OF assms(2)] assms(1) by (simp add: consistent_def)

subsection \<open>What \<open>tick\<close> leaves alone\<close>

lemma tick_satellites_base:
  assumes "fold_err (tick_satellite env thn) (enumerate_list sats) c = Inr c'"
  shows "same_base c c' \<and> length (min_elevations_fire c') = length (min_elevations_fire c)"
proof (rule fold_err_enum_pres[where P = "\<lambda>t. same_base c t \<and>
      length (min_elevations_fire t) = length (min_elevations_fire c)", OF assms])
  show "same_base c c \<and> length (min_elevations_fire c) = length (min_elevations_fire c)"
    by simp
next
  fix k t t'
  assume "same_base c t \<and> length (min_elevations_fire t) = length (min_elevations_fire c)"
    and "tick_satellite env thn (k, sats ! k) t = Inr t'"
  then show "same_base c t' \<and> length (min_elevations_fire t') = length (min_elevations_fire c)"
    using tick_satellite_base[of env thn k "sats ! k" t t']
    by (auto intro: same_base_trans)
qed

lemma tick_base:
  assumes "tick env time_step c = Inr c'"
  shows "names c' = names c \<and> fires c' = fires c \<and> grounds c' = grounds c \<and>
         satellites c' = satellites c \<and> positions c' = positions c \<and> time c' = time c \<and>
         length (detect c') = length (detect c) \<and> length (report c') = length (report c) \<and>
         length (min_elevations_fire c') = length (min_elevations_fire c) \<and>
         length (next_positions c') = length (satellites c) \<and>
         (\<exists>now. time c = Some now \<and> next_time c' = Some (now + time_step))"
proof -
  from tick_eq[OF assms] obtain now where now: "time c = Some now"
    and f: "fold_err (tick_satellite env (now + time_step)) (enumerate_list (satellites c))
       (c\<lparr>next_time := Some (now + time_step),
           next_positions := map (\<lambda>satellite. Some (subpoint env satellite (now + time_step)))
                               (satellites c)\<rparr>) = Inr c'"
    by blast
  from tick_satellites_base[OF f] now show ?thesis
    by (simp add: same_base_def)
qed

subsection \<open>C9: which lists are aligned\<close>

lemma map_err_length: "map_err f xs = Inr ys \<Longrightarrow> length ys = length xs"
  by (induction xs arbitrary: ys) (auto split: sum.splits)

lemma enumerate_list_length [simp]: "length (enumerate_list xs) = length xs"
  by (simp add: enumerate_list_def)

lemma init_per_satellite:
  assumes "init env nms ES tles = Inr c0"
  shows "per_satellite c0 \<and> per_fire c0"
  using assms unfolding init_def Let_def
  by (auto simp: bind_err_Inr_iff per_satellite_def per_fire_def dest!: map_err_length)

lemma step_per_satellite:
  assumes "per_satellite c \<and> per_fire c" "step env x c = (out, Inr c')"
  shows "per_satellite c' \<and> per_fire c'"
proof (cases x)
  case (Initialize t)
  with assms show ?thesis
    by (auto simp: initialize_def entity_initialize_def Let_def per_satellite_def per_fire_def)
next
  case (Tick dt)
  with assms have "tick env dt c = Inr c'" by simp
  from tick_base[OF this] assms(1) show ?thesis
    by (simp add: per_satellite_def per_fire_def)
next
  case Tock
  with assms have "tock c = (out, Inr c')" by simp
  from tock_eq[OF this] assms(1) show ?thesis
    by (simp add: per_satellite_def per_fire_def)
next
  case (OnFire f)
  with assms show ?thesis
    by (auto simp: on_fire_def Let_def per_satellite_def per_fire_def)
next
  case (OnGround g)
  with assms show ?thesis
    by (auto simp: on_ground_def per_satellite_def per_fire_def split: option.splits if_splits)
qed

lemma run_per_satellite:
  "per_satellite c \<and> per_fire c \<Longrightarrow> run env ops c = (out, Inr c') \<Longrightarrow>
   per_satellite c' \<and> per_fire c'"
proof (induction ops arbitrary: c out)
  case Nil
  then show ?case by simp
next
  case (Cons x xs)
  from run_Cons_Inr[OF Cons.prems(2)] obtain out1 c1 out2 where
    s: "step env x c = (out1, Inr c1)" and r: "run env xs c1 = (out2, Inr c')"
    by blast
  from Cons.prems(1) s have "per_satellite c1 \<and> per_fire c1" by (rule step_per_satellite)
  then show ?case using r by (rule Cons.IH)
qed

text \<open>
  C9 as stated fails: \<open>detect\<close> and \<open>report\<close> hold one dictionary for each fire, not
  one for each satellite. With two satellites and one fire, \<open>satellites\<close> has two
  entries, \<open>detect\<close> and \<open>report\<close> have one.
\<close>

theorem C9_counterexample:
  "(case snd (run example_env [Initialize 0, OnFire fire1] example_c0) of
      Inl e \<Rightarrow> None
    | Inr c \<Rightarrow> Some (length (satellites c), length (detect c), length (report c)))
   = Some (2, 1, 1)"
  by (simp add: initialize_def entity_initialize_def on_fire_def Let_def example_c0_def)

text \<open>
  C9, amended: at every point of a run after construction, the lists \<open>fires\<close>,
  \<open>detect\<close> and \<open>report\<close> have the same length and, when the satellite names avoid
  the reserved keys, the dictionaries at an index carry the \<open>fireId\<close> of the fire at
  that index; and the lists \<open>positions\<close>, \<open>next_positions\<close> and
  \<open>min_elevations_fire\<close> have the length of \<open>satellites\<close>.
\<close>

theorem C9_aligned:
  assumes "init env nms ES tles = Inr c0" and "run env ops c0 = (out, Inr c)"
  shows "length (detect c) = length (fires c) \<and> length (report c) = length (fires c) \<and>
         length (positions c) = length (satellites c) \<and>
         length (next_positions c) = length (satellites c) \<and>
         length (min_elevations_fire c) = length (satellites c) \<and>
         (names_ok nms \<longrightarrow>
           (\<forall>j < length (fires c).
              (detect c ! j) k_fireId = Some (VInt (fireId (fires c ! j))) \<and>
              (report c ! j) k_fireId = Some (VInt (fireId (fires c ! j)))))"
proof -
  from run_per_satellite[OF init_per_satellite[OF assms(1)] assms(2)]
  have 1: "per_satellite c \<and> per_fire c" .
  have 2: "(detect c ! j) k_fireId = Some (VInt (fireId (fires c ! j))) \<and>
           (report c ! j) k_fireId = Some (VInt (fireId (fires c ! j)))"
    if ok: "names_ok nms" and j: "j < length (fires c)" for j
  proof -
    from init_consistent[OF ok assms(1)] assms(2) have "consistent c"
      by (rule run_consistent)
    with j show ?thesis
      by (simp add: consistent_def report_ok_def)
  qed
  from 1 2 show ?thesis
    by (simp add: per_satellite_def per_fire_def)
qed

lemma names_ok_example: "names_ok example_names"
  by (simp add: names_ok_def example_names_def reserved_keys_def k_fireId_def
      k_firstDetect_def k_firstDetector_def k_firstReport_def k_firstReporter_def
      k_firstReportedTo_def)

lemma run_example_c2:
  "run example_env [Initialize 0, OnFire fire1] example_c0 = ([], Inr example_c2)"
  by (simp add: example_c2_def)

theorem C9_aligned_witness:
  "names_ok example_names \<and>
   length (detect example_c2) = length (fires example_c2) \<and>
   length (report example_c2) = length (fires example_c2) \<and>
   length (positions example_c2) = length (satellites example_c2) \<and>
   (detect example_c2 ! 0) k_fireId = Some (VInt (fireId (fires example_c2 ! 0))) \<and>
   (report example_c2 ! 0) k_fireId = Some (VInt (fireId (fires example_c2 ! 0)))"
proof -
  have len: "0 < length (fires example_c2)"
    by (simp add: example_c2_def on_fire_def Let_def)
  from C9_aligned[OF init_example run_example_c2] names_ok_example len show ?thesis
    by blast
qed

subsection \<open>No operation clears a \<open>firstDetect\<close> flag\<close>

lemma flags_kept_refl [simp]: "flags_kept c c"
  by (simp add: flags_kept_def)

lemma flags_kept_trans: "flags_kept a b \<Longrightarrow> flags_kept b c \<Longrightarrow> flags_kept a c"
  by (auto simp: flags_kept_def)

lemma flags_kept_same_detect: "detect c' = detect c \<Longrightarrow> flags_kept c c'"
  by (simp add: flags_kept_def)

lemma detect_upd_flag:
  assumes "flag_set d k_firstDetect"
  shows "flag_set (detect_upd name thn d) k_firstDetect"
proof (cases "(d(name \<mapsto> VTime thn)) k_firstDetector = Some VNone")
  case True
  then show ?thesis
    by (simp add: detect_upd_def Let_def flag_set_def del: fun_upd_apply) simp
next
  case False
  then have "detect_upd name thn d = d(name \<mapsto> VTime thn)"
    by (simp add: detect_upd_def Let_def del: fun_upd_apply)
  with assms show ?thesis
    by (simp add: flag_set_def)
qed

lemma tick_detect_flags: "tick_detect thn i j c = Inr c' \<Longrightarrow> flags_kept c c'"
  by (drule tick_detect_eq) (auto simp: flags_kept_def nth_list_update detect_upd_flag)

lemma tick_fire_flags:
  assumes "tick_fire env thn i satellite (j, fire) c = Inr c'"
  shows "flags_kept c c'"
proof -
  from tick_fire_eq[OF assms] obtain c1 where
    1: "if check_in_view env thn satellite
                 (wgs84_latlon (fire_latitude fire) (fire_longitude fire))
                 (min_elevations_fire c ! i)
            then tick_detect thn i j c = Inr c1 else c1 = c"
    and 2: "tick_report env thn i satellite j c1 = Inr c'"
    by blast
  from 1 have "flags_kept c c1"
    by (auto split: if_splits dest: tick_detect_flags)
  moreover from tick_report_base[OF 2] have "flags_kept c1 c'"
    by (simp add: flags_kept_same_detect)
  ultimately show ?thesis by (rule flags_kept_trans)
qed

lemma tick_fires_flags:
  assumes "fold_err (tick_fire env thn i satellite) (enumerate_list fs) c = Inr c'"
  shows "flags_kept c c'"
proof (rule fold_err_enum_pres[where P = "flags_kept c", OF assms])
  show "flags_kept c c" by simp
next
  fix k t t'
  assume "flags_kept c t" "tick_fire env thn i satellite (k, fs ! k) t = Inr t'"
  then show "flags_kept c t'"
    by (blast intro: flags_kept_trans tick_fire_flags)
qed

lemma tick_satellite_flags:
  assumes "tick_satellite env thn (i, satellite) c = Inr c'"
  shows "flags_kept c c'"
  using tick_satellite_eq[OF assms]
  by (auto dest!: tick_fires_flags simp: flags_kept_def)

lemma tick_flags:
  assumes "tick env time_step c = Inr c'"
  shows "flags_kept c c'"
proof -
  from tick_eq[OF assms] obtain now where
    f: "fold_err (tick_satellite env (now + time_step)) (enumerate_list (satellites c))
       (c\<lparr>next_time := Some (now + time_step),
           next_positions := map (\<lambda>satellite. Some (subpoint env satellite (now + time_step)))
                               (satellites c)\<rparr>) = Inr c'"
    by blast
  show ?thesis
  proof (rule fold_err_enum_pres[where P = "flags_kept c", OF f])
    show "flags_kept c (c\<lparr>next_time := Some (now + time_step),
           next_positions := map (\<lambda>satellite. Some (subpoint env satellite (now + time_step)))
                               (satellites c)\<rparr>)"
      by (simp add: flags_kept_def)
  next
    fix k t t'
    assume "flags_kept c t"
      "tick_satellite env (now + time_step) (k, satellites c ! k) t = Inr t'"
    then show "flags_kept c t'"
      by (blast intro: flags_kept_trans tick_satellite_flags)
  qed
qed

lemma step_flags:
  assumes "step env x c = (out, Inr c')"
  shows "flags_kept c c'"
proof (cases x)
  case (Initialize t)
  with assms show ?thesis
    by (auto simp: initialize_def entity_initialize_def Let_def flags_kept_def)
next
  case (Tick dt)
  with assms show ?thesis by (auto intro: tick_flags)
next
  case Tock
  with assms have "tock c = (out, Inr c')" by simp
  from tock_eq[OF this] show ?thesis by (simp add: flags_kept_def)
next
  case (OnFire f)
  with assms show ?thesis
    by (auto simp: on_fire_def Let_def flags_kept_def nth_append)
next
  case (OnGround g)
  with assms show ?thesis
    by (auto simp: on_ground_def flags_kept_def split: option.splits if_splits)
qed

subsection \<open>\<open>tock\<close> on a consistent object\<close>

lemma timestamp_not_None: "timestamp v \<Longrightarrow> v \<noteq> VNone \<Longrightarrow> \<exists>t. v = VTime t"
  by (cases v) simp_all

lemma detected_notification_cases:
  assumes ok: "names_ok nms" and d: "detect_ok nms d"
  shows "(d k_firstDetect = Some (VBool False) \<and> d k_firstDetector = Some VNone \<and>
          detected_notification d = Inr []) \<or>
         (\<exists>fid n t. d k_firstDetect = Some (VBool True) \<and> d k_fireId = Some (VInt fid) \<and>
            d k_firstDetector = Some n \<and> n \<in> set nms \<and> d n = Some (VTime t) \<and>
            detected_notification d = Inr [Detected (VInt fid) (VTime t) n])"
proof -
  from d obtain fid where fid: "d k_fireId = Some (VInt fid)"
    by (auto simp: detect_ok_def)
  from d consider
      (fresh) "d k_firstDetect = Some (VBool False)" "d k_firstDetector = Some VNone"
    | (latched) n where "d k_firstDetect = Some (VBool True)" "n \<in> set nms"
        "d k_firstDetector = Some n" "d n \<noteq> Some VNone"
    by (auto simp: detect_ok_def)
  then show ?thesis
  proof cases
    case fresh
    then show ?thesis
      by (simp add: detected_notification_def getitem_def)
  next
    case latched
    from d latched(2) obtain v where v: "d n = Some v" "timestamp v"
      by (auto simp: detect_ok_def)
    with latched(4) obtain t where t: "d n = Some (VTime t)"
      using timestamp_not_None[of v] by auto
    with latched fid have "detected_notification d = Inr [Detected (VInt fid) (VTime t) n]"
      by (simp add: detected_notification_def getitem_def)
    with latched fid t show ?thesis by blast
  qed
qed

lemma reported_notification_cases:
  assumes ok: "names_ok nms" and d: "detect_ok nms d" and r: "report_ok nms d r"
  shows "(r k_firstReport = Some (VBool False) \<and> reported_notification r = Inr []) \<or>
         (\<exists>fid n t g. r k_firstReport = Some (VBool True) \<and> r k_fireId = Some (VInt fid) \<and>
            d k_fireId = Some (VInt fid) \<and> d k_firstDetect = Some (VBool True) \<and>
            r k_firstReporter = Some n \<and> n \<in> set nms \<and> r n = Some (VTime t) \<and>
            r k_firstReportedTo = Some g \<and>
            reported_notification r = Inr [Reported (VInt fid) (VTime t) n g])"
proof -
  from d r obtain fid where fid: "d k_fireId = Some (VInt fid)" "r k_fireId = Some (VInt fid)"
    by (auto simp: detect_ok_def report_ok_def)
  from r obtain b g where b: "r k_firstReport = Some (VBool b)"
      "b \<longrightarrow> r k_firstReporter \<noteq> Some VNone" and g: "r k_firstReportedTo = Some g"
    by (auto simp: report_ok_def)
  show ?thesis
  proof (cases b)
    case False
    with b show ?thesis
      by (simp add: reported_notification_def getitem_def)
  next
    case True
    with b r obtain n where n: "n \<in> set nms" "r k_firstReporter = Some n" "r n \<noteq> Some VNone"
      by (auto simp: report_ok_def)
    from r n(1) obtain v where v: "r n = Some v" "timestamp v" "v \<noteq> VNone \<longrightarrow> d n \<noteq> Some VNone"
      by (auto simp: report_ok_def)
    with n(3) obtain t where t: "r n = Some (VTime t)"
      using timestamp_not_None[of v] by auto
    from v n(3) have "d n \<noteq> Some VNone" by auto
    with d n(1) have flag: "d k_firstDetect = Some (VBool True)"
      by (auto simp: detect_ok_def)
    from True b n fid t g
    have "reported_notification r = Inr [Reported (VInt fid) (VTime t) n g]"
      by (simp add: reported_notification_def getitem_def)
    with True b n fid t g flag show ?thesis by simp
  qed
qed

lemma tock_detected_all:
  "\<forall>d \<in> set ds. \<exists>ns. detected_notification d = Inr ns \<Longrightarrow>
   tock_detected ds = (concat (map detected_of ds), None)"
  by (induction ds) (auto simp: detected_of_def)

lemma tock_reported_all:
  "\<forall>r \<in> set rs. \<exists>ns. reported_notification r = Inr ns \<Longrightarrow>
   tock_reported rs = (concat (map reported_of rs), Inr (map clear_firstReport rs))"
  by (induction rs) (auto simp: reported_of_def clear_firstReport_def)

lemma consistent_nth:
  assumes "consistent c" "j < length (fires c)"
  shows "names_ok (names c)" "detect_ok (names c) (detect c ! j)"
    "report_ok (names c) (detect c ! j) (report c ! j)"
    "(detect c ! j) k_fireId = Some (VInt (fireId (fires c ! j)))"
    "j < length (detect c)" "j < length (report c)"
  using assms by (simp_all add: consistent_def)

lemma tock_consistent_eq:
  assumes "consistent c"
  shows "tock c = (concat (map detected_of (detect c)) @ concat (map reported_of (report c)),
           Inr (c\<lparr>positions := next_positions c, report := map clear_firstReport (report c),
                   time := next_time c\<rparr>))"
proof -
  from assms have len: "length (detect c) = length (fires c)" "length (report c) = length (fires c)"
    by (simp_all add: consistent_def)
  have "\<exists>ns. detected_notification d = Inr ns" if "d \<in> set (detect c)" for d
  proof -
    from that obtain j where j: "j < length (detect c)" "d = detect c ! j"
      by (auto simp: in_set_conv_nth)
    with len have "j < length (fires c)" by simp
    from detected_notification_cases[OF consistent_nth(1,2)[OF assms this]] j(2)
    show ?thesis by auto
  qed
  then have 1: "tock_detected (detect c) = (concat (map detected_of (detect c)), None)"
    by (intro tock_detected_all) blast
  have "\<exists>ns. reported_notification r = Inr ns" if "r \<in> set (report c)" for r
  proof -
    from that obtain j where j: "j < length (report c)" "r = report c ! j"
      by (auto simp: in_set_conv_nth)
    with len have "j < length (fires c)" by simp
    from reported_notification_cases[OF consistent_nth(1,2,3)[OF assms this]] j(2)
    show ?thesis by auto
  qed
  then have 2: "tock_reported (report c) =
      (concat (map reported_of (report c)), Inr (map clear_firstReport (report c)))"
    by (intro tock_reported_all) blast
  show ?thesis
    by (simp add: tock_def Let_def 1 2 entity_tock_def)
qed

subsection \<open>Evaluating the small constellation\<close>

lemmas example_defs = initialize_def entity_initialize_def on_ground_def series_contains_def
  on_fire_def fromkeys_def tick_def entity_tick_def time_plus_def enumerate_list_def
  tick_satellite_def getitem_list_def setitem_list_def elevation_of_def example_env_def
  compute_min_elevation_180 tick_fire_def check_in_view_def get_elevation_angle_def
  wgs84_latlon_def tick_detect_def detect_latch_def getitem_def tick_report_def
  check_in_range_def report_latch_def tock_def detected_notification_def
  reported_notification_def entity_tock_def Let_def k_fireId_def k_firstDetect_def
  k_firstDetector_def k_firstReport_def k_firstReporter_def k_firstReportedTo_def
  example_names_def example_c0_def fire1_def station0_def example_ops_def

lemma example_run_out:
  "fst (run example_env example_ops example_c0) =
     [Detected (VInt 1) (VTime 1) (VStr ''A''),
      Detected (VInt 1) (VTime 2) (VStr ''A''),
      Reported (VInt 1) (VTime 2) (VStr ''A'') (VInt 0),
      Detected (VInt 1) (VTime 3) (VStr ''A'')]"
  by (simp add: example_defs)

subsection \<open>Names that collide with the reserved keys\<close>

text \<open>
  The statements about the entries of the satellites, \<open>firstDetect\<close>,
  \<open>firstDetector\<close>, \<open>firstReport\<close> and the order of the notifications are for
  satellite names that are none of the keys the code adds itself (\<open>names_ok\<close>),
  and they say so. The dictionaries hold both under one roof, and the condition cannot
  be dropped:

  \<^item> a satellite named \<open>fireId\<close> finds its entry set, to the id of the fire, as
    soon as the fire is announced and while \<open>firstDetector\<close> is still \<open>None\<close>; and
    when it comes into view it overwrites the id with the time, which the notification
    then carries as the fire id;

  \<^item> a satellite named \<open>firstDetector\<close> writes the time into \<open>firstDetector\<close>
    when it comes into view, so that the test \<open>firstDetector is None\<close> fails, the
    flag \<open>firstDetect\<close> is never set and the fire is never notified as detected,
    although it is notified as reported;

  \<^item> a satellite named \<open>firstDetect\<close> writes the time into its entry when it
    comes into view, and the latch overwrites it with \<open>True\<close> in the same pass.
\<close>

lemma colliding_names_not_ok: "\<not> names_ok colliding_names"
  by (simp add: names_ok_def colliding_names_def reserved_keys_def k_fireId_def)

lemma colliding_names_entry:
  "(detect (on_fire fire1 (example_c0\<lparr>names := colliding_names\<rparr>)) ! 0) (VStr ''fireId'')
     = Some (VInt 1) \<and>
   (detect (on_fire fire1 (example_c0\<lparr>names := colliding_names\<rparr>)) ! 0) k_firstDetector
     = Some VNone"
  by (simp add: example_defs colliding_names_def)

lemma colliding_names_run:
  "fst (run example_env [Initialize 0, OnFire fire1, Tick 1, Tock]
     (example_c0\<lparr>names := colliding_names\<rparr>))
   = [Detected (VTime 1) (VTime 1) (VStr ''fireId'')]"
  by (simp add: example_defs colliding_names_def)

lemma detector_names_not_ok: "\<not> names_ok detector_names"
  by (simp add: names_ok_def detector_names_def reserved_keys_def k_firstDetector_def)

lemma flag_names_not_ok: "\<not> names_ok flag_names"
  by (simp add: names_ok_def flag_names_def reserved_keys_def k_firstDetect_def)

lemma init_detector_names:
  "init example_env detector_names (Some [0, 1]) None
     = Inr (example_c0\<lparr>names := detector_names\<rparr>)"
  by (simp add: init_def enumerate_list_def initial_min_elevation_def example_env_def
      getitem_list_def compute_min_elevation_180 example_c0_def upt_rec[of 0 2] upt_rec[of 1 2])

lemma init_flag_names:
  "init example_env flag_names (Some [0, 1]) None
     = Inr (example_c0\<lparr>names := flag_names\<rparr>)"
  by (simp add: init_def enumerate_list_def initial_min_elevation_def example_env_def
      getitem_list_def compute_min_elevation_180 example_c0_def upt_rec[of 0 2] upt_rec[of 1 2])

lemma detector_names_run:
  "fst (run example_env example_ops (example_c0\<lparr>names := detector_names\<rparr>))
     = [Reported (VInt 1) (VTime 2) (VStr ''firstDetector'') (VInt 0)]"
  by (simp add: example_defs detector_names_def)

lemma detector_names_flag:
  "(case snd (run example_env example_ops (example_c0\<lparr>names := detector_names\<rparr>)) of
      Inl e \<Rightarrow> None | Inr c \<Rightarrow> (detect c ! 0) k_firstDetect) = Some (VBool False) \<and>
   ever_seen example_env example_ops (example_c0\<lparr>names := detector_names\<rparr>) 0"
  by (simp add: seen_at_def sees_def min_elevation_at_def Ex_less_Suc example_defs
      detector_names_def)

lemma flag_names_entry:
  "sees example_env 1 0 0 fire1 \<and>
   (case snd (run example_env (take 4 example_ops) (example_c0\<lparr>names := flag_names\<rparr>)) of
      Inl e \<Rightarrow> None | Inr c \<Rightarrow> (detect c ! 0) (VStr ''firstDetect'')) = Some (VBool True)"
  by (simp add: sees_def min_elevation_at_def example_defs flag_names_def)

subsection \<open>C10: what \<open>tock\<close> changes\<close>

text \<open>
  C10: \<open>tock\<close> replaces \<open>positions\<close> by \<open>next_positions\<close>, advances the clock and
  sets the \<open>firstReport\<close> entry of every report dictionary to \<open>False\<close>; every other
  attribute and every other entry of every dictionary is as before. On an object
  reached by a run it always returns. No operation clears a \<open>firstDetect\<close> flag that
  is set.
\<close>

theorem C10_tock_frame:
  "(tock c = (out, Inr c') \<longrightarrow>
      positions c' = next_positions c \<and> time c' = next_time c \<and>
      length (report c') = length (report c) \<and>
      (\<forall>j < length (report c).
         (report c' ! j) k_firstReport = Some (VBool False) \<and>
         (\<forall>k. k \<noteq> k_firstReport \<longrightarrow> (report c' ! j) k = (report c ! j) k)) \<and>
      fires c' = fires c \<and> grounds c' = grounds c \<and> detect c' = detect c \<and>
      names c' = names c \<and> satellites c' = satellites c \<and>
      next_positions c' = next_positions c \<and>
      min_elevations_fire c' = min_elevations_fire c \<and> next_time c' = next_time c) \<and>
   (names_ok nms \<and> init env nms ES tles = Inr cstart \<and> run env ops cstart = (outs, Inr c)
      \<longrightarrow> (\<exists>out' c''. tock c = (out', Inr c''))) \<and>
   (step env x c = (outx, Inr cx) \<longrightarrow>
      (\<forall>j < length (detect c). flag_set (detect c ! j) k_firstDetect \<longrightarrow>
         j < length (detect cx) \<and> flag_set (detect cx ! j) k_firstDetect))"
proof -
  have frame: "positions c' = next_positions c \<and> time c' = next_time c \<and>
      length (report c') = length (report c) \<and>
      (\<forall>j < length (report c).
         (report c' ! j) k_firstReport = Some (VBool False) \<and>
         (\<forall>k. k \<noteq> k_firstReport \<longrightarrow> (report c' ! j) k = (report c ! j) k)) \<and>
      fires c' = fires c \<and> grounds c' = grounds c \<and> detect c' = detect c \<and>
      names c' = names c \<and> satellites c' = satellites c \<and>
      next_positions c' = next_positions c \<and>
      min_elevations_fire c' = min_elevations_fire c \<and> next_time c' = next_time c"
    if t: "tock c = (out, Inr c')"
    unfolding tock_eq[OF t] by (simp add: clear_firstReport_apply)
  have returns: "\<exists>out' c''. tock c = (out', Inr c'')"
    if "names_ok nms \<and> init env nms ES tles = Inr cstart \<and> run env ops cstart = (outs, Inr c)"
  proof -
    from that have "consistent c"
      by (blast intro: run_consistent init_consistent)
    from tock_consistent_eq[OF this] show ?thesis by blast
  qed
  have kept: "\<forall>j < length (detect c). flag_set (detect c ! j) k_firstDetect \<longrightarrow>
         j < length (detect cx) \<and> flag_set (detect cx ! j) k_firstDetect"
    if "step env x c = (outx, Inr cx)"
    using step_flags[OF that] by (auto simp: flags_kept_def)
  from frame returns kept show ?thesis by blast
qed

theorem C10_tock_frame_witness:
  "\<exists>c out c'. run example_env (take 6 example_ops) example_c0
        = ([Detected (VInt 1) (VTime 1) (VStr ''A'')], Inr c) \<and>
      tock c = (out, Inr c') \<and>
      (report c ! 0) k_firstReport = Some (VBool True) \<and>
      (report c' ! 0) k_firstReport = Some (VBool False) \<and>
      (report c' ! 0) k_firstReporter = (report c ! 0) k_firstReporter \<and>
      positions c' = next_positions c \<and> time c' = next_time c \<and> detect c' = detect c \<and>
      flag_set (detect c ! 0) k_firstDetect \<and> flag_set (detect c' ! 0) k_firstDetect"
proof -
  define c where "c = projr (snd (run example_env (take 6 example_ops) example_c0))"
  have run: "run example_env (take 6 example_ops) example_c0
        = ([Detected (VInt 1) (VTime 1) (VStr ''A'')], Inr c)"
    unfolding c_def by (simp add: example_defs)
  have c: "(report c ! 0) k_firstReport = Some (VBool True)" "0 < length (report c)"
      "0 < length (detect c)" "flag_set (detect c ! 0) k_firstDetect"
    unfolding c_def by (simp_all add: example_defs flag_set_def)
  note inst = C10_tock_frame[where c = c and nms = example_names and env = example_env
      and ES = "Some [0, 1]" and tles = None and cstart = example_c0
      and ops = "take 6 example_ops"
      and outs = "[Detected (VInt 1) (VTime 1) (VStr ''A'')]"]
  have "\<exists>out' c''. tock c = (out', Inr c'')"
    using inst[THEN conjunct2, THEN conjunct1] names_ok_example init_example run by simp
  then obtain out c' where t: "tock c = (out, Inr c')"
    by blast
  have frame: "positions c' = next_positions c" "time c' = next_time c" "detect c' = detect c"
    "\<forall>j < length (report c).
         (report c' ! j) k_firstReport = Some (VBool False) \<and>
         (\<forall>k. k \<noteq> k_firstReport \<longrightarrow> (report c' ! j) k = (report c ! j) k)"
    using inst[where out = out and c' = c', THEN conjunct1] t by simp_all
  from frame(4) c(2) have 1: "(report c' ! 0) k_firstReport = Some (VBool False)"
    "(report c' ! 0) k_firstReporter = (report c ! 0) k_firstReporter"
    by simp_all
  have "\<forall>j < length (detect c). flag_set (detect c ! j) k_firstDetect \<longrightarrow>
         j < length (detect c') \<and> flag_set (detect c' ! j) k_firstDetect"
    using inst[where x = Tock and outx = out and cx = c', THEN conjunct2, THEN conjunct2] t
    by simp
  with c have 2: "flag_set (detect c' ! 0) k_firstDetect" by blast
  from run t c(1,4) 1 2 frame(1,2,3) show ?thesis by blast
qed

subsection \<open>C6: a report is notified after the detection\<close>

lemma report_after_detect_Nil [simp]: "report_after_detect []"
  by (simp add: report_after_detect_def)

lemma report_after_detect_append:
  assumes "report_after_detect a" "report_after_detect b"
  shows "report_after_detect (a @ b)"
  unfolding report_after_detect_def
proof (intro allI impI)
  fix k
  assume k: "k < length (a @ b)" and rep: "is_reported ((a @ b) ! k)"
  show "\<exists>k' < k. is_detected ((a @ b) ! k') \<and> n_fireId ((a @ b) ! k') = n_fireId ((a @ b) ! k)"
  proof (cases "k < length a")
    case True
    with rep assms(1) obtain k' where "k' < k" "is_detected (a ! k')"
      "n_fireId (a ! k') = n_fireId (a ! k)"
      by (auto simp: report_after_detect_def nth_append)
    with True show ?thesis
      by (intro exI[of _ k']) (simp add: nth_append)
  next
    case False
    with k rep have "k - length a < length b" "is_reported (b ! (k - length a))"
      by (simp_all add: nth_append)
    with assms(2) obtain k' where k': "k' < k - length a" "is_detected (b ! k')"
      "n_fireId (b ! k') = n_fireId (b ! (k - length a))"
      by (auto simp: report_after_detect_def)
    with False show ?thesis
      by (intro exI[of _ "length a + k'"]) (simp add: nth_append)
  qed
qed

lemma report_after_detect_tock:
  assumes D: "\<forall>x \<in> set D. is_detected x"
    and R: "\<forall>x \<in> set R. \<exists>y \<in> set D. n_fireId y = n_fireId x"
  shows "report_after_detect (D @ R)"
  unfolding report_after_detect_def
proof (intro allI impI)
  fix k
  assume k: "k < length (D @ R)" and rep: "is_reported ((D @ R) ! k)"
  have nd: "\<not> is_reported x" if "is_detected x" for x
    using that by (cases x) simp_all
  from rep D nd have ge: "\<not> k < length D"
    by (auto simp: nth_append)
  with k have "(D @ R) ! k \<in> set R"
    by (simp add: nth_append)
  with R obtain y where y: "y \<in> set D" "n_fireId y = n_fireId ((D @ R) ! k)"
    by blast
  then obtain k' where k': "k' < length D" "D ! k' = y"
    by (auto simp: in_set_conv_nth)
  with y D ge show "\<exists>k' < k. is_detected ((D @ R) ! k') \<and>
      n_fireId ((D @ R) ! k') = n_fireId ((D @ R) ! k)"
    by (intro exI[of _ k']) (auto simp: nth_append)
qed

lemma detected_of_cases:
  assumes "consistent c" "j < length (fires c)"
  shows "detected_of (detect c ! j) = [] \<or>
         (\<exists>t n. detected_of (detect c ! j) = [Detected (VInt (fireId (fires c ! j))) t n])"
  using detected_notification_cases[OF consistent_nth(1,2)[OF assms]] consistent_nth(4)[OF assms]
  by (auto simp: detected_of_def)

lemma reported_of_cases:
  assumes "consistent c" "j < length (fires c)"
  shows "((report c ! j) k_firstReport = Some (VBool False) \<and> reported_of (report c ! j) = []) \<or>
         ((report c ! j) k_firstReport = Some (VBool True) \<and>
          (\<exists>t n g. n \<noteq> VNone \<and> (report c ! j) k_firstReporter = Some n \<and>
             (report c ! j) k_fireId = Some (VInt (fireId (fires c ! j))) \<and>
             reported_of (report c ! j) = [Reported (VInt (fireId (fires c ! j))) t n g]) \<and>
          (\<exists>t n. detected_of (detect c ! j) = [Detected (VInt (fireId (fires c ! j))) t n]))"
proof -
  note ok = consistent_nth(1)[OF assms]
  from reported_notification_cases[OF consistent_nth(1,2,3)[OF assms]]
  show ?thesis
  proof
    assume "(report c ! j) k_firstReport = Some (VBool False) \<and>
            reported_notification (report c ! j) = Inr []"
    then show ?thesis by (simp add: reported_of_def)
  next
    assume "\<exists>fid n t g. (report c ! j) k_firstReport = Some (VBool True) \<and>
        (report c ! j) k_fireId = Some (VInt fid) \<and> (detect c ! j) k_fireId = Some (VInt fid) \<and>
        (detect c ! j) k_firstDetect = Some (VBool True) \<and>
        (report c ! j) k_firstReporter = Some n \<and> n \<in> set (names c) \<and>
        (report c ! j) n = Some (VTime t) \<and> (report c ! j) k_firstReportedTo = Some g \<and>
        reported_notification (report c ! j) = Inr [Reported (VInt fid) (VTime t) n g]"
    then obtain fid n t g where 1: "(report c ! j) k_firstReport = Some (VBool True)"
      "(report c ! j) k_fireId = Some (VInt fid)" "(detect c ! j) k_fireId = Some (VInt fid)"
      "(detect c ! j) k_firstDetect = Some (VBool True)"
      "(report c ! j) k_firstReporter = Some n" "n \<in> set (names c)"
      "reported_notification (report c ! j) = Inr [Reported (VInt fid) (VTime t) n g]"
      by blast
    from 1(3) consistent_nth(4)[OF assms] have fid: "fid = fireId (fires c ! j)" by simp
    from 1(6) have n: "n \<noteq> VNone" by (rule names_okD(1)[OF ok])
    from detected_notification_cases[OF consistent_nth(1,2)[OF assms]] 1(3,4) fid
    have "\<exists>t n. detected_of (detect c ! j) = [Detected (VInt (fireId (fires c ! j))) t n]"
      by (auto simp: detected_of_def)
    with 1 fid n show ?thesis
      by (auto simp: reported_of_def)
  qed
qed

lemma tock_out_after:
  assumes "consistent c"
  shows "(\<forall>x \<in> set (concat (map detected_of (detect c))). is_detected x) \<and>
         (\<forall>x \<in> set (concat (map reported_of (report c))). is_reported x \<and>
            (\<exists>y \<in> set (concat (map detected_of (detect c))). n_fireId y = n_fireId x))"
proof -
  from assms have len: "length (detect c) = length (fires c)" "length (report c) = length (fires c)"
    by (simp_all add: consistent_def)
  have D: "is_detected x" if "x \<in> set (concat (map detected_of (detect c)))" for x
  proof -
    from that obtain d where "d \<in> set (detect c)" "x \<in> set (detected_of d)"
      by auto
    then obtain j where j: "j < length (detect c)" "x \<in> set (detected_of (detect c ! j))"
      by (metis in_set_conv_nth)
    with len detected_of_cases[OF assms, of j] show ?thesis by auto
  qed
  have R: "is_reported x \<and>
      (\<exists>y \<in> set (concat (map detected_of (detect c))). n_fireId y = n_fireId x)"
    if "x \<in> set (concat (map reported_of (report c)))" for x
  proof -
    from that obtain d where "d \<in> set (report c)" "x \<in> set (reported_of d)"
      by auto
    then obtain j where j: "j < length (report c)" "x \<in> set (reported_of (report c ! j))"
      by (metis in_set_conv_nth)
    with len have jf: "j < length (fires c)" by simp
    from reported_of_cases[OF assms jf] j(2) obtain t n g t' n' where
      x: "x = Reported (VInt (fireId (fires c ! j))) t n g"
      and y: "detected_of (detect c ! j) = [Detected (VInt (fireId (fires c ! j))) t' n']"
      by auto
    from jf len have "detect c ! j \<in> set (detect c)" by simp
    with y have "Detected (VInt (fireId (fires c ! j))) t' n'
        \<in> set (concat (map detected_of (detect c)))"
      by (auto intro!: bexI[of _ "detect c ! j"])
    with x show ?thesis
      by (auto intro!: bexI[of _ "Detected (VInt (fireId (fires c ! j))) t' n'"])
  qed
  from D R show ?thesis by blast
qed

lemma step_after:
  assumes "consistent c" "step env x c = (out, r)"
  shows "report_after_detect out"
proof (cases x)
  case Tock
  from tock_out_after[OF assms(1)]
  have "report_after_detect (concat (map detected_of (detect c)) @
      concat (map reported_of (report c)))"
    by (intro report_after_detect_tock) blast+
  with assms Tock show ?thesis
    by (simp add: tock_consistent_eq)
qed (use assms in auto)

lemma run_after:
  "consistent c \<Longrightarrow> run env ops c = (out, r) \<Longrightarrow> report_after_detect out"
proof (induction ops arbitrary: c out r)
  case Nil
  then show ?case by simp
next
  case (Cons x xs)
  obtain o1 r1 where s: "step env x c = (o1, r1)" by (cases "step env x c")
  from step_after[OF Cons.prems(1) s] have o1: "report_after_detect o1" .
  show ?case
  proof (cases r1)
    case (Inl e)
    with s Cons.prems(2) o1 show ?thesis by simp
  next
    case (Inr c1)
    obtain o2 r2 where r: "run env xs c1 = (o2, r2)" by (cases "run env xs c1")
    from Cons.prems(1) s Inr have "consistent c1" by (auto intro: step_consistent)
    from Cons.IH[OF this r] have "report_after_detect o2" .
    with o1 s Inr r Cons.prems(2) show ?thesis
      by (auto intro: report_after_detect_append)
  qed
qed

text \<open>
  C6 as stated fails for a satellite that bears the name of the key
  \<open>firstDetector\<close>: its detection entry is \<open>firstDetector\<close> itself, which is
  therefore no longer \<open>None\<close> when the latch tests it, and \<open>firstDetect\<close> is never
  set. The constructor accepts the names; in the run of the small constellation with
  the first satellite so named, the whole output is one \<open>Reported\<close> notification,
  with no \<open>Detected\<close> notification before it.
\<close>

theorem C6_counterexample:
  "init example_env detector_names (Some [0, 1]) None
     = Inr (example_c0\<lparr>names := detector_names\<rparr>) \<and>
   fst (run example_env example_ops (example_c0\<lparr>names := detector_names\<rparr>))
     = [Reported (VInt 1) (VTime 2) (VStr ''firstDetector'') (VInt 0)] \<and>
   \<not> report_after_detect
       (fst (run example_env example_ops (example_c0\<lparr>names := detector_names\<rparr>)))"
  using init_detector_names detector_names_run by (simp add: report_after_detect_def)

text \<open>
  C6, amended: when every satellite name is a string or an integer that is none of the
  keys \<open>fireId\<close>, \<open>firstDetect\<close>, \<open>firstDetector\<close>, \<open>firstReport\<close>,
  \<open>firstReporter\<close>, \<open>firstReportedTo\<close>, then in the output of any run, every
  \<open>Reported\<close> notification comes after a \<open>Detected\<close> notification of the same fire
  id; and a \<open>tock\<close> at any point of the run returns and emits first the \<open>Detected\<close>
  notifications, at most one for each fire and in the order of the fires, then the
  \<open>Reported\<close> ones.
\<close>

theorem C6_report_after_detect:
  assumes "names_ok nms" "init env nms ES tles = Inr cstart" "run env ops cstart = (out, r)"
  shows "(\<forall>k < length out. is_reported (out ! k) \<longrightarrow>
            (\<exists>k' < k. is_detected (out ! k') \<and> n_fireId (out ! k') = n_fireId (out ! k))) \<and>
         (\<forall>c. r = Inr c \<longrightarrow>
            (\<exists>c'. tock c = (concat (map detected_of (detect c)) @
                             concat (map reported_of (report c)), Inr c')) \<and>
            list_all is_detected (concat (map detected_of (detect c))) \<and>
            list_all is_reported (concat (map reported_of (report c))) \<and>
            (\<forall>j < length (fires c).
               detected_of (detect c ! j) = [] \<or>
               (\<exists>t n. detected_of (detect c ! j) = [Detected (VInt (fireId (fires c ! j))) t n])))"
proof -
  from assms(1,2) have start: "consistent cstart" by (rule init_consistent)
  from run_after[OF start assms(3)]
  have 1: "\<forall>k < length out. is_reported (out ! k) \<longrightarrow>
            (\<exists>k' < k. is_detected (out ! k') \<and> n_fireId (out ! k') = n_fireId (out ! k))"
    by (simp add: report_after_detect_def)
  have 2: "(\<exists>c'. tock c = (concat (map detected_of (detect c)) @
                             concat (map reported_of (report c)), Inr c')) \<and>
            list_all is_detected (concat (map detected_of (detect c))) \<and>
            list_all is_reported (concat (map reported_of (report c))) \<and>
            (\<forall>j < length (fires c).
               detected_of (detect c ! j) = [] \<or>
               (\<exists>t n. detected_of (detect c ! j) = [Detected (VInt (fireId (fires c ! j))) t n]))"
    if "r = Inr c" for c
  proof -
    from start assms(3) that have c: "consistent c" by (auto intro: run_consistent)
    from tock_out_after[OF c] have "list_all is_detected (concat (map detected_of (detect c)))"
      "list_all is_reported (concat (map reported_of (report c)))"
      unfolding list_all_iff by blast+
    with tock_consistent_eq[OF c] detected_of_cases[OF c] show ?thesis by blast
  qed
  from 1 2 show ?thesis by blast
qed

theorem C6_report_after_detect_witness:
  "is_reported (fst (run example_env example_ops example_c0) ! 2) \<and>
   (\<exists>k' < 2. is_detected (fst (run example_env example_ops example_c0) ! k') \<and>
      n_fireId (fst (run example_env example_ops example_c0) ! k')
        = n_fireId (fst (run example_env example_ops example_c0) ! 2)) \<and>
   (\<exists>c c'. snd (run example_env example_ops example_c0) = Inr c \<and>
      tock c = (concat (map detected_of (detect c)) @ concat (map reported_of (report c)),
                Inr c') \<and>
      list_all is_detected (concat (map detected_of (detect c))) \<and>
      list_all is_reported (concat (map reported_of (report c))))"
proof -
  let ?out = "fst (run example_env example_ops example_c0)"
  define c where "c = projr (snd (run example_env example_ops example_c0))"
  have r: "snd (run example_env example_ops example_c0) = Inr c"
    unfolding c_def by (simp add: example_defs)
  have run: "run example_env example_ops example_c0 = (?out, Inr c)"
    using r by (simp add: prod_eq_iff)
  have 2: "2 < length ?out" "is_reported (?out ! 2)"
    by (simp_all add: example_run_out)
  note inst = C6_report_after_detect[OF names_ok_example init_example run]
  from inst 2 have a: "\<exists>k' < 2. is_detected (?out ! k') \<and> n_fireId (?out ! k') = n_fireId (?out ! 2)"
    by blast
  from inst obtain c' where b: "tock c = (concat (map detected_of (detect c)) @
        concat (map reported_of (report c)), Inr c')"
      "list_all is_detected (concat (map detected_of (detect c)))"
      "list_all is_reported (concat (map reported_of (report c)))"
    by blast
  from 2(2) a r b show ?thesis by blast
qed

subsection \<open>C7: a report is notified once\<close>



lemma pending_le_refl [simp]: "pending_le f c c"
  by (simp add: pending_le_def)








lemma reported_count_append [simp]:
  "reported_count f (a @ b) = reported_count f a + reported_count f b"
  by (simp add: reported_count_def)

lemma reported_count_Nil [simp]: "reported_count f [] = 0"
  by (simp add: reported_count_def)














subsection \<open>The detection dictionaries after a \<open>tick\<close>\<close>

lemma detect_by_0 [simp]: "detect_by env thn nms sats fire 0 d = d"
  by (simp add: detect_by_def)

lemma detect_by_Suc:
  "detect_by env thn nms sats fire (Suc k) d =
     detect_step env thn nms sats fire k (detect_by env thn nms sats fire k d)"
  by (simp add: detect_by_def)

lemma tick_fires_detect:
  assumes f: "fold_err (tick_fire env thn i satellite) (enumerate_list fs) c = Inr c'"
    and len: "length (detect c) = length fs"
    and me: "i < length (min_elevations_fire c)"
      "min_elevation_at env thn i satellite = Inr (min_elevations_fire c ! i)"
  shows "\<forall>j < length fs. detect c' ! j =
           (if sees env thn i satellite (fs ! j)
            then detect_upd (names c ! i) thn (detect c ! j) else detect c ! j)"
proof -
  define P where "P = (\<lambda>m u. same_base c u \<and> min_elevations_fire u = min_elevations_fire c \<and>
      (\<forall>j < length fs. detect u ! j =
           (if j < m \<and> sees env thn i satellite (fs ! j)
            then detect_upd (names c ! i) thn (detect c ! j) else detect c ! j)))"
  have "P (length fs) c'"
  proof (rule fold_err_enum_inv[where P = P, OF f])
    show "P 0 c" by (simp add: P_def)
  next
    fix m u u'
    assume m: "m < length fs" and Pu: "P m u"
      and t: "tick_fire env thn i satellite (m, fs ! m) u = Inr u'"
    from Pu have base: "same_base c u" and meu: "min_elevations_fire u = min_elevations_fire c"
      and du: "\<forall>j < length fs. detect u ! j =
           (if j < m \<and> sees env thn i satellite (fs ! j)
            then detect_upd (names c ! i) thn (detect c ! j) else detect c ! j)"
      by (simp_all add: P_def)
    from base have nu: "names u = names c" and lu: "length (detect u) = length (detect c)"
      by (simp_all add: same_base_def)
    from tick_fire_base[OF t] base meu
    have base': "same_base c u'" and meu': "min_elevations_fire u' = min_elevations_fire c"
      by (auto intro: same_base_trans)
    from tick_fire_eq[OF t] obtain u1 where
      1: "if check_in_view env thn satellite
                 (wgs84_latlon (fire_latitude (fs ! m)) (fire_longitude (fs ! m)))
                 (min_elevations_fire u ! i)
            then tick_detect thn i m u = Inr u1 else u1 = u"
      and 2: "tick_report env thn i satellite m u1 = Inr u'"
      by blast
    have view: "check_in_view env thn satellite
                 (wgs84_latlon (fire_latitude (fs ! m)) (fire_longitude (fs ! m)))
                 (min_elevations_fire u ! i) = sees env thn i satellite (fs ! m)"
      by (simp add: sees_def me(2) meu)
    from tick_report_base[OF 2] have d': "detect u' = detect u1" by simp
    from du m have dm: "detect u ! m = detect c ! m" by simp
    have "detect u' ! j =
           (if j < Suc m \<and> sees env thn i satellite (fs ! j)
            then detect_upd (names c ! i) thn (detect c ! j) else detect c ! j)"
      if j: "j < length fs" for j
    proof (cases "sees env thn i satellite (fs ! m)")
      case True
      with 1 view have "tick_detect thn i m u = Inr u1" by simp
      from tick_detect_eq[OF this]
      have "detect u1 = (detect u)[m := detect_upd (names c ! i) thn (detect c ! m)]"
        by (simp add: nu dm)
      with d' j m du len lu True show ?thesis
        by (cases "j = m") (simp_all add: nth_list_update less_Suc_eq)
    next
      case False
      with 1 view have "u1 = u" by simp
      with d' j du False show ?thesis
        by (cases "j = m") (simp_all add: less_Suc_eq)
    qed
    with base' meu' show "P (Suc m) u'" by (simp add: P_def)
  qed
  then show ?thesis by (simp add: P_def)
qed

lemma tick_satellites_detect:
  assumes f: "fold_err (tick_satellite env thn) (enumerate_list sats) c = Inr c'"
    and sats: "sats = satellites c"
    and np: "next_positions c = map (\<lambda>satellite. Some (subpoint env satellite thn)) sats"
    and len: "length (detect c) = length (fires c)"
  shows "\<forall>j < length (fires c). detect c' ! j =
           detect_by env thn (names c) sats (fires c ! j) (length sats) (detect c ! j)"
proof -
  define P where "P = (\<lambda>k t. same_base c t \<and>
      (\<forall>j < length (fires c). detect t ! j =
           detect_by env thn (names c) sats (fires c ! j) k (detect c ! j)))"
  have "P (length sats) c'"
  proof (rule fold_err_enum_inv[where P = P, OF f])
    show "P 0 c" by (simp add: P_def)
  next
    fix k t t'
    assume k: "k < length sats" and Pt: "P k t"
      and s: "tick_satellite env thn (k, sats ! k) t = Inr t'"
    from Pt have base: "same_base c t"
      and dt: "\<forall>j < length (fires c). detect t ! j =
           detect_by env thn (names c) sats (fires c ! j) k (detect c ! j)"
      by (simp_all add: P_def)
    from tick_satellite_base[OF s] base have base': "same_base c t'"
      by (auto intro: same_base_trans)
    from base have eqs: "names t = names c" "fires t = fires c"
      "next_positions t = next_positions c" "length (detect t) = length (detect c)"
      by (simp_all add: same_base_def)
    from tick_satellite_eq[OF s] obtain p me where
      p: "next_positions t ! k = Some p" and kf: "k < length (FIELD_OF_REGARD env)"
      and cme: "compute_min_elevation (elevation_m p) (FIELD_OF_REGARD env ! k) = Inr me"
      and km: "k < length (min_elevations_fire t)"
      and inner: "fold_err (tick_fire env thn k (sats ! k)) (enumerate_list (fires t))
             (t\<lparr>min_elevations_fire := (min_elevations_fire t)[k := me]\<rparr>) = Inr t'"
      by blast
    from p k have "p = subpoint env (sats ! k) thn"
      by (simp add: eqs np)
    with cme kf have mea: "min_elevation_at env thn k (sats ! k) = Inr me"
      by (simp add: min_elevation_at_def getitem_list_def)
    let ?t1 = "t\<lparr>min_elevations_fire := (min_elevations_fire t)[k := me]\<rparr>"
    have "\<forall>j < length (fires t). detect t' ! j =
           (if sees env thn k (sats ! k) (fires t ! j)
            then detect_upd (names ?t1 ! k) thn (detect ?t1 ! j) else detect ?t1 ! j)"
      using km mea len
      by (intro tick_fires_detect[OF inner]) (simp_all add: eqs)
    then have "\<forall>j < length (fires c). detect t' ! j =
           detect_by env thn (names c) sats (fires c ! j) (Suc k) (detect c ! j)"
      using dt by (simp add: eqs detect_by_Suc detect_step_def)
    with base' show "P (Suc k) t'" by (simp add: P_def)
  qed
  then show ?thesis by (simp add: P_def)
qed

lemma tick_detect_closed:
  assumes "tick env time_step c = Inr c'" "time c = Some now"
    and "length (detect c) = length (fires c)"
  shows "\<forall>j < length (fires c). detect c' ! j =
           detect_by env (now + time_step) (names c) (satellites c) (fires c ! j)
             (length (satellites c)) (detect c ! j)"
proof -
  from tick_eq[OF assms(1)] assms(2) have
    f: "fold_err (tick_satellite env (now + time_step)) (enumerate_list (satellites c))
       (c\<lparr>next_time := Some (now + time_step),
           next_positions := map (\<lambda>satellite. Some (subpoint env satellite (now + time_step)))
                               (satellites c)\<rparr>) = Inr c'"
    by auto
  from tick_satellites_detect[OF f] assms(3) show ?thesis by simp
qed

lemma detect_by_entry:
  assumes "n \<noteq> k_firstDetect" "n \<noteq> k_firstDetector"
  shows "detect_by env thn nms sats fire k d n =
     (if \<exists>i < k. sees env thn i (sats ! i) fire \<and> nms ! i = n
      then Some (VTime thn) else d n)"
proof (induction k)
  case 0
  then show ?case by simp
next
  case (Suc k)
  show ?case
    unfolding detect_by_Suc detect_step_def
    using Suc assms by (auto simp: detect_upd_apply less_Suc_eq)
qed

lemma find_append:
  "List.find P (xs @ ys) = (case List.find P xs of None \<Rightarrow> List.find P ys | Some x \<Rightarrow> Some x)"
  by (induction xs) auto

lemma find_upt_less: "List.find P [0..<k] = Some i \<Longrightarrow> i < k \<and> P i"
  by (auto simp: find_Some_iff)

lemma detect_by_firstDetector:
  assumes "\<forall>i < k. sees env thn i (sats ! i) fire \<longrightarrow>
      nms ! i \<noteq> k_firstDetector \<and> nms ! i \<noteq> VNone"
  shows "detect_by env thn nms sats fire k d k_firstDetector =
     (if d k_firstDetector = Some VNone
      then (case List.find (\<lambda>i. sees env thn i (sats ! i) fire) [0..<k] of
              None \<Rightarrow> Some VNone
            | Some i \<Rightarrow> Some (nms ! i))
      else d k_firstDetector)"
  using assms
proof (induction k)
  case 0
  then show ?case by simp
next
  case (Suc k)
  let ?P = "\<lambda>i. sees env thn i (sats ! i) fire"
  let ?d = "detect_by env thn nms sats fire k d"
  from Suc have IH: "?d k_firstDetector =
     (if d k_firstDetector = Some VNone
      then (case List.find ?P [0..<k] of None \<Rightarrow> Some VNone | Some i \<Rightarrow> Some (nms ! i))
      else d k_firstDetector)"
    by simp
  show ?case
  proof (cases "d k_firstDetector = Some VNone")
    case False
    with IH have "?d k_firstDetector = d k_firstDetector" by simp
    with False Suc.prems show ?thesis
      unfolding detect_by_Suc detect_step_def
      by (simp add: detect_upd_firstDetector)
  next
    case None: True
    show ?thesis
    proof (cases "List.find ?P [0..<k]")
      case (Some i)
      from find_upt_less[OF Some] Suc.prems have "nms ! i \<noteq> VNone" by simp
      with IH None Some have "?d k_firstDetector = Some (nms ! i)" "?d k_firstDetector \<noteq> Some VNone"
        by simp_all
      with None Some Suc.prems show ?thesis
        unfolding detect_by_Suc detect_step_def
        by (simp add: detect_upd_firstDetector find_append)
    next
      case none: None
      with IH None have "?d k_firstDetector = Some VNone" by simp
      with None none Suc.prems show ?thesis
        unfolding detect_by_Suc detect_step_def
        by (simp add: detect_upd_firstDetector find_append)
    qed
  qed
qed

lemma fold_err_Cons_Inr:
  "fold_err f (x # xs) s = Inr s' \<Longrightarrow> \<exists>t. f x s = Inr t"
  by (auto split: sum.splits)

lemma enumerate_list_Cons:
  "enumerate_list (x # xs) = (0, x) # zip [1..<Suc (length xs)] xs"
  by (simp add: enumerate_list_def upt_rec)

lemma tick_fires_names:
  assumes "fold_err (tick_fire env thn i satellite) (enumerate_list fs) c = Inr c'" "fs \<noteq> []"
  shows "i < length (names c)"
proof -
  from assms(2) obtain f fs' where fs: "fs = f # fs'" by (cases fs) auto
  from assms(1) obtain t where t: "tick_fire env thn i satellite (0, f) c = Inr t"
    unfolding fs enumerate_list_Cons by (blast dest: fold_err_Cons_Inr)
  from tick_fire_eq[OF t] obtain c1 where
    1: "if check_in_view env thn satellite
                 (wgs84_latlon (fire_latitude f) (fire_longitude f))
                 (min_elevations_fire c ! i)
            then tick_detect thn i 0 c = Inr c1 else c1 = c"
    and 2: "tick_report env thn i satellite 0 c1 = Inr t"
    by blast
  from 1 have "names c1 = names c"
    by (auto split: if_splits dest: tick_detect_base simp: same_base_def)
  with tick_report_eq[OF 2] show ?thesis by simp
qed

lemma tick_names:
  assumes "tick env time_step c = Inr c'" "fires c \<noteq> []"
  shows "length (satellites c) \<le> length (names c)"
proof -
  from tick_eq[OF assms(1)] obtain now where
    f: "fold_err (tick_satellite env (now + time_step)) (enumerate_list (satellites c))
       (c\<lparr>next_time := Some (now + time_step),
           next_positions := map (\<lambda>satellite. Some (subpoint env satellite (now + time_step)))
                               (satellites c)\<rparr>) = Inr c'"
    by blast
  let ?c2 = "c\<lparr>next_time := Some (now + time_step),
           next_positions := map (\<lambda>satellite. Some (subpoint env satellite (now + time_step)))
                               (satellites c)\<rparr>"
  define P where "P = (\<lambda>k t. same_base ?c2 t \<and> k \<le> length (names c))"
  have "P (length (satellites c)) c'"
  proof (rule fold_err_enum_inv[where P = P, OF f])
    show "P 0 ?c2" by (simp add: P_def)
  next
    fix k t t'
    assume k: "k < length (satellites c)" and Pt: "P k t"
      and s: "tick_satellite env (now + time_step) (k, satellites c ! k) t = Inr t'"
    from Pt have base: "same_base ?c2 t" by (simp add: P_def)
    then have eqs: "names t = names c" "fires t = fires c" by (simp_all add: same_base_def)
    from tick_satellite_eq[OF s] obtain me where
      inner: "fold_err (tick_fire env (now + time_step) k (satellites c ! k))
             (enumerate_list (fires t))
             (t\<lparr>min_elevations_fire := (min_elevations_fire t)[k := me]\<rparr>) = Inr t'"
      by blast
    from tick_fires_names[OF inner] assms(2) have "k < length (names c)"
      by (simp add: eqs)
    moreover from tick_satellite_base[OF s] base have "same_base ?c2 t'"
      by (auto intro: same_base_trans)
    ultimately show "P (Suc k) t'" by (simp add: P_def)
  qed
  then show ?thesis by (simp add: P_def)
qed

lemma detect_ok_flag:
  assumes "names_ok nms" "detect_ok nms d"
  shows "d k_firstDetect = Some (VBool True) \<longleftrightarrow> d k_firstDetector \<noteq> Some VNone"
    and "d k_firstDetect = Some (VBool False) \<longleftrightarrow> d k_firstDetector = Some VNone"
    and "d k_firstDetector \<noteq> Some VNone \<longleftrightarrow> (\<exists>n \<in> set nms. d n \<noteq> Some VNone)"
proof -
  have nn: "VNone \<notin> set nms"
    using names_okD(1)[OF assms(1)] by blast
  from assms(2) nn show "d k_firstDetect = Some (VBool True) \<longleftrightarrow> d k_firstDetector \<noteq> Some VNone"
    by (auto simp: detect_ok_def)
  from assms(2) nn show "d k_firstDetect = Some (VBool False) \<longleftrightarrow> d k_firstDetector = Some VNone"
    by (auto simp: detect_ok_def)
  from assms(2) nn show "d k_firstDetector \<noteq> Some VNone \<longleftrightarrow> (\<exists>n \<in> set nms. d n \<noteq> Some VNone)"
    by (auto simp: detect_ok_def)
qed

lemma tick_firstDetector:
  assumes c: "consistent c" and t: "tick env time_step c = Inr c'" and now: "time c = Some now"
    and j: "j < length (fires c)"
  shows "(detect c' ! j) k_firstDetector =
     (if (detect c ! j) k_firstDetector = Some VNone
      then (case List.find (\<lambda>i. sees env (now + time_step) i (satellites c ! i) (fires c ! j))
                  [0..<length (satellites c)] of
              None \<Rightarrow> Some VNone
            | Some i \<Rightarrow> Some (names c ! i))
      else (detect c ! j) k_firstDetector)"
proof -
  from c have ok: "names_ok (names c)" and len: "length (detect c) = length (fires c)"
    by (simp_all add: consistent_def)
  from j have "fires c \<noteq> []" by auto
  from tick_names[OF t this] have le: "length (satellites c) \<le> length (names c)" .
  have nm: "names c ! i \<noteq> k_firstDetector \<and> names c ! i \<noteq> VNone"
    if "i < length (satellites c)" for i
  proof -
    from that le have "names c ! i \<in> set (names c)" by simp
    from names_okD[OF ok this] show ?thesis by simp
  qed
  from tick_detect_closed[OF t now len] j
  have "detect c' ! j = detect_by env (now + time_step) (names c) (satellites c) (fires c ! j)
             (length (satellites c)) (detect c ! j)"
    by simp
  then show ?thesis
    using nm by (simp add: detect_by_firstDetector)
qed

lemma tick_firstDetect:
  assumes c: "consistent c" and t: "tick env time_step c = Inr c'" and now: "time c = Some now"
    and j: "j < length (fires c)"
  shows "(detect c' ! j) k_firstDetect = Some (VBool True) \<longleftrightarrow>
     (detect c ! j) k_firstDetect = Some (VBool True) \<or>
     (\<exists>i < length (satellites c).
        sees env (now + time_step) i (satellites c ! i) (fires c ! j))"
proof -
  from tick_consistent[OF c t] have c': "consistent c'" .
  from tick_base[OF t] have same: "names c' = names c" "fires c' = fires c" by simp_all
  from c have ok: "names_ok (names c)" by (simp add: consistent_def)
  from j have "fires c \<noteq> []" by auto
  from tick_names[OF t this] have le: "length (satellites c) \<le> length (names c)" .
  let ?P = "\<lambda>i. sees env (now + time_step) i (satellites c ! i) (fires c ! j)"
  have old: "(detect c ! j) k_firstDetect = Some (VBool True) \<longleftrightarrow>
      (detect c ! j) k_firstDetector \<noteq> Some VNone"
    using detect_ok_flag(1)[OF consistent_nth(1,2)[OF c j]] .
  have new: "(detect c' ! j) k_firstDetect = Some (VBool True) \<longleftrightarrow>
      (detect c' ! j) k_firstDetector \<noteq> Some VNone"
    using detect_ok_flag(1)[OF consistent_nth(1,2)[OF c', of j]] j same by simp
  have found: "names c ! i \<noteq> VNone" if "List.find ?P [0..<length (satellites c)] = Some i" for i
  proof -
    from find_upt_less[OF that] le have "names c ! i \<in> set (names c)" by simp
    from names_okD(1)[OF ok this] show ?thesis .
  qed
  have ex: "(\<exists>i < length (satellites c). ?P i) \<longleftrightarrow>
      List.find ?P [0..<length (satellites c)] \<noteq> None"
    by (auto simp: find_None_iff)
  show ?thesis
    unfolding new old ex tick_firstDetector[OF c t now j]
    using found by (auto split: option.splits)
qed

subsection \<open>C5: the first detector\<close>

lemma step_detect_nth:
  assumes "length (detect c) = length (fires c)" "step env x c = (out, Inr c')"
    "j < length (fires c)" "\<forall>time_step. x \<noteq> Tick time_step"
  shows "detect c' ! j = detect c ! j"
proof (cases x)
  case (Initialize t)
  with assms show ?thesis
    by (auto simp: initialize_def entity_initialize_def Let_def)
next
  case (Tick dt)
  with assms show ?thesis by simp
next
  case Tock
  with assms have "tock c = (out, Inr c')" by simp
  from tock_eq[OF this] show ?thesis by simp
next
  case (OnFire f)
  with assms show ?thesis
    by (auto simp: on_fire_def Let_def nth_append)
next
  case (OnGround g)
  with assms show ?thesis
    by (auto simp: on_ground_def split: option.splits if_splits)
qed

lemma step_firstDetector:
  assumes c: "consistent c" and s: "step env x c = (out, Inr c')" and j: "j < length (fires c)"
    and set: "(detect c ! j) k_firstDetector \<noteq> Some VNone"
  shows "(detect c' ! j) k_firstDetector = (detect c ! j) k_firstDetector"
proof (cases "\<exists>time_step. x = Tick time_step")
  case True
  then obtain time_step where x: "x = Tick time_step" by blast
  with s have t: "tick env time_step c = Inr c'" by simp
  from tick_eq[OF t] obtain now where "time c = Some now" by blast
  from tick_firstDetector[OF c t this j] set show ?thesis by simp
next
  case False
  from c have "length (detect c) = length (fires c)" by (simp add: consistent_def)
  from step_detect_nth[OF this s j] False show ?thesis by simp
qed

text \<open>
  C5 as stated fails for a satellite that bears the name of the key
  \<open>firstDetector\<close>: its detection entry is \<open>firstDetector\<close> itself, and \<open>tick\<close>
  writes the time into it at every \<open>tick\<close> at which the satellite is in view. The
  constructor accepts the names; in the run of the small constellation with the first
  satellite so named, \<open>firstDetector\<close> is \<open>None\<close> before the first \<open>tick\<close>, the
  time 1 after it and the time 2 after the second: it is assigned twice.
\<close>

theorem C5_counterexample:
  "init example_env detector_names (Some [0, 1]) None
     = Inr (example_c0\<lparr>names := detector_names\<rparr>) \<and>
   (case snd (run example_env (take 3 example_ops) (example_c0\<lparr>names := detector_names\<rparr>)) of
      Inl e \<Rightarrow> None | Inr c \<Rightarrow> (detect c ! 0) k_firstDetector) = Some VNone \<and>
   (case snd (run example_env (take 4 example_ops) (example_c0\<lparr>names := detector_names\<rparr>)) of
      Inl e \<Rightarrow> None | Inr c \<Rightarrow> (detect c ! 0) k_firstDetector) = Some (VTime 1) \<and>
   (case snd (run example_env (take 6 example_ops) (example_c0\<lparr>names := detector_names\<rparr>)) of
      Inl e \<Rightarrow> None | Inr c \<Rightarrow> (detect c ! 0) k_firstDetector) = Some (VTime 2)"
proof -
  have "(case snd (run example_env (take 3 example_ops) (example_c0\<lparr>names := detector_names\<rparr>)) of
      Inl e \<Rightarrow> None | Inr c \<Rightarrow> (detect c ! 0) k_firstDetector) = Some VNone \<and>
   (case snd (run example_env (take 4 example_ops) (example_c0\<lparr>names := detector_names\<rparr>)) of
      Inl e \<Rightarrow> None | Inr c \<Rightarrow> (detect c ! 0) k_firstDetector) = Some (VTime 1) \<and>
   (case snd (run example_env (take 6 example_ops) (example_c0\<lparr>names := detector_names\<rparr>)) of
      Inl e \<Rightarrow> None | Inr c \<Rightarrow> (detect c ! 0) k_firstDetector) = Some (VTime 2)"
    by (simp add: example_defs detector_names_def)
  with init_detector_names show ?thesis by (rule conjI)
qed

text \<open>
  C5, amended: when every satellite name is a string or an integer that is none of the
  keys \<open>fireId\<close>, \<open>firstDetect\<close>, \<open>firstDetector\<close>, \<open>firstReport\<close>,
  \<open>firstReporter\<close>, \<open>firstReportedTo\<close>, then at every point of a run, for every
  fire, \<open>firstDetector\<close> is set exactly when the entry of some satellite is a
  timestamp; once set, no operation changes it; and a \<open>tick\<close> that finds it unset sets
  it to the name of the first satellite, in the order of the list of satellites, that is
  in view of the fire at that \<open>tick\<close>, and leaves it unset when none is.
\<close>

theorem C5_first_detector:
  assumes "names_ok nms" "init env nms ES tles = Inr cstart"
    and "run env ops cstart = (outs, Inr c)" and "j < length (fires c)"
  shows "((\<exists>n. (detect c ! j) k_firstDetector = Some n \<and> n \<noteq> VNone) \<longleftrightarrow>
          (\<exists>n \<in> set (names c). \<exists>t. (detect c ! j) n = Some (VTime t))) \<and>
         (\<forall>x out c'. step env x c = (out, Inr c') \<and>
              (detect c ! j) k_firstDetector \<noteq> Some VNone \<longrightarrow>
            (detect c' ! j) k_firstDetector = (detect c ! j) k_firstDetector) \<and>
         (\<forall>time_step now c'. tick env time_step c = Inr c' \<and> time c = Some now \<and>
              (detect c ! j) k_firstDetector = Some VNone \<longrightarrow>
            (detect c' ! j) k_firstDetector =
              (case List.find (\<lambda>i. sees env (now + time_step) i (satellites c ! i) (fires c ! j))
                      [0..<length (satellites c)] of
                 None \<Rightarrow> Some VNone
               | Some i \<Rightarrow> Some (names c ! i)))"
proof -
  from assms(1,2) have "consistent cstart" by (rule init_consistent)
  then have c: "consistent c" using assms(3) by (rule run_consistent)
  note ok = consistent_nth(1)[OF c assms(4)] and d = consistent_nth(2)[OF c assms(4)]
  have nn: "VNone \<notin> set (names c)"
    using names_okD(1)[OF ok] by blast
  have 1: "(\<exists>n. (detect c ! j) k_firstDetector = Some n \<and> n \<noteq> VNone) \<longleftrightarrow>
          (\<exists>n \<in> set (names c). \<exists>t. (detect c ! j) n = Some (VTime t))"
  proof
    assume "\<exists>n. (detect c ! j) k_firstDetector = Some n \<and> n \<noteq> VNone"
    with d obtain n where n: "n \<in> set (names c)" "(detect c ! j) n \<noteq> Some VNone"
      by (auto simp: detect_ok_def)
    from d n(1) obtain v where "(detect c ! j) n = Some v" "timestamp v"
      by (auto simp: detect_ok_def)
    with n show "\<exists>n \<in> set (names c). \<exists>t. (detect c ! j) n = Some (VTime t)"
      using timestamp_not_None[of v] by auto
  next
    assume "\<exists>n \<in> set (names c). \<exists>t. (detect c ! j) n = Some (VTime t)"
    with d nn show "\<exists>n. (detect c ! j) k_firstDetector = Some n \<and> n \<noteq> VNone"
      by (auto simp: detect_ok_def)
  qed
  from 1 step_firstDetector[OF c _ assms(4)] tick_firstDetector[OF c _ _ assms(4)]
  show ?thesis by auto
qed

theorem C5_first_detector_witness:
  "\<exists>c c' c''. run example_env (take 3 example_ops) example_c0 = ([], Inr c) \<and>
      tick example_env 1 c = Inr c' \<and>
      run example_env (take 4 example_ops) example_c0 = ([], Inr c') \<and>
      sees example_env 1 0 0 fire1 \<and> sees example_env 1 1 1 fire1 \<and>
      (detect c ! 0) k_firstDetector = Some VNone \<and>
      (detect c' ! 0) k_firstDetector = Some (VStr ''A'') \<and>
      (\<exists>n \<in> set (names c'). \<exists>t. (detect c' ! 0) n = Some (VTime t)) \<and>
      step example_env Tock c' = ([Detected (VInt 1) (VTime 1) (VStr ''A'')], Inr c'') \<and>
      (detect c'' ! 0) k_firstDetector = Some (VStr ''A'')"
proof -
  define c where "c = projr (snd (run example_env (take 3 example_ops) example_c0))"
  define c' where "c' = projr (tick example_env 1 c)"
  define c'' where "c'' = projr (snd (tock c'))"
  have run: "run example_env (take 3 example_ops) example_c0 = ([], Inr c)"
    unfolding c_def by (simp add: example_defs)
  have tick: "tick example_env 1 c = Inr c'"
    unfolding c'_def c_def by (simp add: example_defs)
  have run': "run example_env (take 4 example_ops) example_c0 = ([], Inr c')"
    unfolding c'_def c_def by (simp add: example_defs)
  have tock: "step example_env Tock c' = ([Detected (VInt 1) (VTime 1) (VStr ''A'')], Inr c'')"
    unfolding c''_def c'_def c_def by (simp add: example_defs)
  have c: "0 < length (fires c)" "time c = Some 0" "(detect c ! 0) k_firstDetector = Some VNone"
    "satellites c = [0, 1]" "fires c = [fire1]" "names c = example_names"
    unfolding c_def by (simp_all add: example_defs)
  have len': "0 < length (fires c')"
    unfolding c'_def c_def by (simp add: example_defs)
  have sees: "sees example_env 1 0 0 fire1" "sees example_env 1 1 1 fire1"
    by (simp_all add: sees_def min_elevation_at_def example_defs)
  from C5_first_detector[OF names_ok_example init_example run c(1)] tick c(2,3)
  have "(detect c' ! 0) k_firstDetector =
      (case List.find (\<lambda>i. sees example_env (0 + 1) i (satellites c ! i) (fires c ! 0))
                      [0..<length (satellites c)] of
                 None \<Rightarrow> Some VNone
               | Some i \<Rightarrow> Some (names c ! i))"
    by blast
  also have "\<dots> = Some (VStr ''A'')"
    using sees by (simp add: c upt_rec example_names_def)
  finally have set: "(detect c' ! 0) k_firstDetector = Some (VStr ''A'')" .
  note inst = C5_first_detector[OF names_ok_example init_example run' len']
  from inst set have ent: "\<exists>n \<in> set (names c'). \<exists>t. (detect c' ! 0) n = Some (VTime t)"
    by simp
  from inst tock set have kept: "(detect c'' ! 0) k_firstDetector = Some (VStr ''A'')"
    by (metis option.inject val.distinct(5))
  from run tick run' sees c(3) set ent tock kept show ?thesis by blast
qed

subsection \<open>C2: the entry of a satellite is rewritten at every tick in view\<close>

text \<open>
  C2 as stated fails: \<open>tick\<close> writes the entry whenever the satellite is in view,
  whether the entry is null or not (the guard is a comment in the source). In the run
  of the small constellation the entry of satellite \<open>A\<close> for the fire is 1 after the
  first \<open>tick\<close> and 2 after the second.
\<close>

theorem C2_counterexample:
  "(case snd (run example_env (take 4 example_ops) example_c0) of
      Inl e \<Rightarrow> None | Inr c \<Rightarrow> (detect c ! 0) (VStr ''A'')) = Some (VTime 1) \<and>
   (case snd (run example_env (take 6 example_ops) example_c0) of
      Inl e \<Rightarrow> None | Inr c \<Rightarrow> (detect c ! 0) (VStr ''A'')) = Some (VTime 2)"
  by (simp add: example_defs)

text \<open>
  C2, amended: when every satellite name is a string or an integer that is none of the
  keys \<open>fireId\<close>, \<open>firstDetect\<close>, \<open>firstDetector\<close>, \<open>firstReport\<close>,
  \<open>firstReporter\<close>, \<open>firstReportedTo\<close>, then for every fire and every satellite,
  \<open>tick\<close> evaluates the in-view check whatever the entry holds and writes
  \<open>currentTime + \<Delta>t\<close> into the entry whenever the satellite is in view; a
  \<open>tick\<close> at which the satellite is not in view leaves the entry as it is.
  Consequently an entry that is a timestamp remains a timestamp under every operation,
  but its value is replaced at each later \<open>tick\<close> at which the satellite is in view.
  (Satellites that share a name share the entry: it is written when any of them is in
  view.)
\<close>

theorem C2_detection_entry:
  assumes "names_ok nms" "init env nms ES tles = Inr cstart"
    and "run env ops cstart = (outs, Inr c)" and "j < length (fires c)"
    and "n \<in> set (names c)"
  shows "(\<forall>time_step now c'. tick env time_step c = Inr c' \<and> time c = Some now \<longrightarrow>
            length (satellites c) \<le> length (names c) \<and>
            (detect c' ! j) n =
              (if \<exists>i < length (satellites c). names c ! i = n \<and>
                    sees env (now + time_step) i (satellites c ! i) (fires c ! j)
               then Some (VTime (now + time_step)) else (detect c ! j) n)) \<and>
         (\<forall>x out c'. step env x c = (out, Inr c') \<and>
              (\<exists>t. (detect c ! j) n = Some (VTime t)) \<longrightarrow>
            (\<exists>t. (detect c' ! j) n = Some (VTime t)))"
proof -
  from assms(1,2) have "consistent cstart" by (rule init_consistent)
  then have c: "consistent c" using assms(3) by (rule run_consistent)
  note ok = consistent_nth(1)[OF c assms(4)]
  from c have len: "length (detect c) = length (fires c)" by (simp add: consistent_def)
  note nm = names_okD[OF ok assms(5)]
  have 1: "length (satellites c) \<le> length (names c) \<and>
            (detect c' ! j) n =
              (if \<exists>i < length (satellites c). names c ! i = n \<and>
                    sees env (now + time_step) i (satellites c ! i) (fires c ! j)
               then Some (VTime (now + time_step)) else (detect c ! j) n)"
    if t: "tick env time_step c = Inr c'" and now: "time c = Some now"
    for time_step now c'
  proof -
    from assms(4) have "fires c \<noteq> []" by auto
    from tick_names[OF t this] have le: "length (satellites c) \<le> length (names c)" .
    from tick_detect_closed[OF t now len] assms(4)
    have "detect c' ! j = detect_by env (now + time_step) (names c) (satellites c) (fires c ! j)
             (length (satellites c)) (detect c ! j)"
      by simp
    then have "(detect c' ! j) n =
        (if \<exists>i < length (satellites c).
              sees env (now + time_step) i (satellites c ! i) (fires c ! j) \<and> names c ! i = n
         then Some (VTime (now + time_step)) else (detect c ! j) n)"
      using nm by (simp add: detect_by_entry)
    also have "\<dots> = (if \<exists>i < length (satellites c). names c ! i = n \<and>
                    sees env (now + time_step) i (satellites c ! i) (fires c ! j)
               then Some (VTime (now + time_step)) else (detect c ! j) n)"
      by (rule if_cong) auto
    finally show ?thesis using le by simp
  qed
  have 2: "\<exists>t. (detect c' ! j) n = Some (VTime t)"
    if s: "step env x c = (out, Inr c')" and v: "\<exists>t. (detect c ! j) n = Some (VTime t)"
    for x out c'
  proof (cases "\<exists>time_step. x = Tick time_step")
    case True
    then obtain time_step where x: "x = Tick time_step" by blast
    with s have t: "tick env time_step c = Inr c'" by simp
    from tick_eq[OF t] obtain now where "time c = Some now" by blast
    from 1[OF t this] v show ?thesis by auto
  next
    case False
    from step_detect_nth[OF len s assms(4)] False v show ?thesis by simp
  qed
  from 1 2 show ?thesis by blast
qed

theorem C2_detection_entry_witness:
  "\<exists>c c'. run example_env (take 7 example_ops) example_c0
        = ([Detected (VInt 1) (VTime 1) (VStr ''A''), Detected (VInt 1) (VTime 2) (VStr ''A''),
           Reported (VInt 1) (VTime 2) (VStr ''A'') (VInt 0)], Inr c) \<and>
      tick example_env 1 c = Inr c' \<and>
      step example_env (Tick 1) c = ([], Inr c') \<and>
      VStr ''A'' \<in> set (names c) \<and>
      (detect c ! 0) (VStr ''A'') = Some (VTime 2) \<and>
      sees example_env 3 0 0 fire1 \<and>
      (detect c' ! 0) (VStr ''A'') = Some (VTime 3) \<and>
      (\<exists>t. (detect c' ! 0) (VStr ''A'') = Some (VTime t))"
proof -
  define c where "c = projr (snd (run example_env (take 7 example_ops) example_c0))"
  define c' where "c' = projr (tick example_env 1 c)"
  have run: "run example_env (take 7 example_ops) example_c0
      = ([Detected (VInt 1) (VTime 1) (VStr ''A''), Detected (VInt 1) (VTime 2) (VStr ''A''),
           Reported (VInt 1) (VTime 2) (VStr ''A'') (VInt 0)], Inr c)"
    unfolding c_def by (simp add: example_defs)
  have tick: "tick example_env 1 c = Inr c'"
    unfolding c'_def c_def by (simp add: example_defs)
  then have step: "step example_env (Tick 1) c = ([], Inr c')" by simp
  have c: "0 < length (fires c)" "time c = Some 2" "(detect c ! 0) (VStr ''A'') = Some (VTime 2)"
    "satellites c = [0, 1]" "fires c = [fire1]" "names c = example_names"
    unfolding c_def by (simp_all add: example_defs)
  have n: "VStr ''A'' \<in> set (names c)"
    by (simp add: c example_names_def)
  have sees: "sees example_env 3 0 0 fire1"
    by (simp add: sees_def min_elevation_at_def example_defs)
  note inst = C2_detection_entry[OF names_ok_example init_example run c(1) n]
  from inst tick c(2)
  have "(detect c' ! 0) (VStr ''A'') =
      (if \<exists>i < length (satellites c). names c ! i = VStr ''A'' \<and>
            sees example_env (2 + 1) i (satellites c ! i) (fires c ! 0)
       then Some (VTime (2 + 1)) else (detect c ! 0) (VStr ''A''))"
    by blast
  also have "\<dots> = Some (VTime 3)"
  proof -
    have "\<exists>i < length (satellites c). names c ! i = VStr ''A'' \<and>
            sees example_env (2 + 1) i (satellites c ! i) (fires c ! 0)"
      using sees by (intro exI[of _ 0]) (simp add: c example_names_def)
    then show ?thesis by simp
  qed
  finally have new: "(detect c' ! 0) (VStr ''A'') = Some (VTime 3)" .
  from inst step c(3) have still: "\<exists>t. (detect c' ! 0) (VStr ''A'') = Some (VTime t)"
    by blast
  from run tick step sees c(3) n new still show ?thesis by blast
qed

subsection \<open>C1: a detection is notified at every tock\<close>

lemma step_fires_length:
  assumes "step env x c = (out, Inr c')"
  shows "length (fires c) \<le> length (fires c')"
proof (cases x)
  case (Initialize t)
  with assms show ?thesis
    by (auto simp: initialize_def entity_initialize_def Let_def)
next
  case (Tick dt)
  with assms have "tick env dt c = Inr c'" by simp
  from tick_base[OF this] show ?thesis by simp
next
  case Tock
  with assms have "tock c = (out, Inr c')" by simp
  from tock_eq[OF this] show ?thesis by simp
next
  case (OnFire f)
  with assms show ?thesis by (auto simp: on_fire_def Let_def)
next
  case (OnGround g)
  with assms show ?thesis
    by (auto simp: on_ground_def split: option.splits if_splits)
qed

lemma step_flag:
  assumes c: "consistent c" and s: "step env x c = (out, Inr c')" and j: "j < length (fires c')"
  shows "(detect c' ! j) k_firstDetect = Some (VBool True) \<longleftrightarrow>
         (j < length (fires c) \<and> (detect c ! j) k_firstDetect = Some (VBool True)) \<or>
         seen_in env x c j"
proof -
  from c have len: "length (detect c) = length (fires c)" by (simp add: consistent_def)
  show ?thesis
  proof (cases x)
    case (Tick dt)
    with s have t: "tick env dt c = Inr c'" by simp
    from tick_eq[OF t] obtain now where now: "time c = Some now" by blast
    from tick_base[OF t] j have jc: "j < length (fires c)" by simp
    from tick_firstDetect[OF c t now jc] jc Tick now show ?thesis
      by (simp add: seen_at_def)
  next
    case (OnFire f)
    show ?thesis
    proof (cases "j < length (fires c)")
      case True
      from step_detect_nth[OF len s True] OnFire True show ?thesis by simp
    next
      case False
      with j s OnFire have "j = length (detect c)"
        by (auto simp: on_fire_def Let_def len)
      with s OnFire have "(detect c' ! j) k_firstDetect = Some (VBool False)"
        by (auto simp: on_fire_def Let_def)
      with False OnFire show ?thesis by simp
    qed
  next
    case (Initialize t)
    with s j have jc: "j < length (fires c)"
      by (auto simp: initialize_def entity_initialize_def Let_def)
    from step_detect_nth[OF len s jc] Initialize jc show ?thesis by simp
  next
    case Tock
    with s have "tock c = (out, Inr c')" by simp
    from tock_eq[OF this] j have jc: "j < length (fires c)" by simp
    from step_detect_nth[OF len s jc] Tock jc show ?thesis by simp
  next
    case (OnGround g)
    with s j have jc: "j < length (fires c)"
      by (auto simp: on_ground_def split: option.splits if_splits)
    from step_detect_nth[OF len s jc] OnGround jc show ?thesis by simp
  qed
qed

lemma seen_in_length: "seen_in env x c j \<Longrightarrow> j < length (fires c)"
  by (cases x) (auto simp: seen_at_def split: option.splits)

lemma run_flag:
  "consistent c \<Longrightarrow> run env ops c = (out, Inr c') \<Longrightarrow> j < length (fires c') \<Longrightarrow>
   (detect c' ! j) k_firstDetect = Some (VBool True) \<longleftrightarrow>
     (j < length (fires c) \<and> (detect c ! j) k_firstDetect = Some (VBool True)) \<or>
     ever_seen env ops c j"
proof (induction ops arbitrary: c out)
  case Nil
  then show ?case by auto
next
  case (Cons x xs)
  from run_Cons_Inr[OF Cons.prems(2)] obtain out1 c1 out2 where
    s: "step env x c = (out1, Inr c1)" and r: "run env xs c1 = (out2, Inr c')"
    by blast
  from Cons.prems(1) s have c1: "consistent c1" by (rule step_consistent)
  from step_fires_length[OF s] have le: "length (fires c) \<le> length (fires c1)" .
  from Cons.IH[OF c1 r Cons.prems(3)]
  have IH: "(detect c' ! j) k_firstDetect = Some (VBool True) \<longleftrightarrow>
     (j < length (fires c1) \<and> (detect c1 ! j) k_firstDetect = Some (VBool True)) \<or>
     ever_seen env xs c1 j" .
  have mid: "(j < length (fires c1) \<and> (detect c1 ! j) k_firstDetect = Some (VBool True)) \<longleftrightarrow>
     (j < length (fires c) \<and> (detect c ! j) k_firstDetect = Some (VBool True)) \<or>
     seen_in env x c j"
  proof (cases "j < length (fires c1)")
    case True
    from step_flag[OF Cons.prems(1) s True] True show ?thesis by simp
  next
    case False
    with le seen_in_length[of env x c j] show ?thesis by auto
  qed
  have ev: "ever_seen env (x # xs) c j \<longleftrightarrow> seen_in env x c j \<or> ever_seen env xs c1 j"
    by (simp add: s)
  show ?case unfolding IH mid ev by blast
qed

lemma concat_map_indexed:
  assumes "\<forall>j < length xs. f (xs ! j) = (if P j then [g j] else [])"
  shows "concat (map f xs) = map g (filter P [0..<length xs])"
  using assms
proof (induction xs rule: rev_induct)
  case Nil
  then show ?case by simp
next
  case (snoc x xs)
  have "\<forall>j < length xs. f (xs ! j) = (if P j then [g j] else [])"
  proof (intro allI impI)
    fix j assume "j < length xs"
    with snoc.prems[rule_format, of j] show "f (xs ! j) = (if P j then [g j] else [])"
      by (simp add: nth_append)
  qed
  from snoc.IH[OF this] snoc.prems[rule_format, of "length xs"] show ?case
    by simp
qed

lemma tock_detected_ids:
  assumes c: "consistent c"
  shows "map n_fireId (concat (map detected_of (detect c))) =
     map (\<lambda>j. VInt (fireId (fires c ! j)))
       (filter (\<lambda>j. (detect c ! j) k_firstDetect = Some (VBool True)) [0..<length (fires c)])"
proof -
  from c have len: "length (detect c) = length (fires c)" by (simp add: consistent_def)
  let ?P = "\<lambda>j. (detect c ! j) k_firstDetect = Some (VBool True)"
  let ?g = "\<lambda>j. hd (detected_of (detect c ! j))"
  have each: "detected_of (detect c ! j) = (if ?P j then [?g j] else []) \<and>
      (?P j \<longrightarrow> n_fireId (?g j) = VInt (fireId (fires c ! j)))"
    if "j < length (fires c)" for j
    using detected_notification_cases[OF consistent_nth(1,2)[OF c that]]
      consistent_nth(4)[OF c that]
    by (auto simp: detected_of_def)
  then have "concat (map detected_of (detect c)) = map ?g (filter ?P [0..<length (detect c)])"
    by (intro concat_map_indexed) (simp add: len)
  then have "map n_fireId (concat (map detected_of (detect c))) =
      map (\<lambda>j. n_fireId (?g j)) (filter ?P [0..<length (fires c)])"
    by (simp add: len comp_def)
  also have "\<dots> = map (\<lambda>j. VInt (fireId (fires c ! j))) (filter ?P [0..<length (fires c)])"
    using each by (intro map_cong) auto
  finally show ?thesis .
qed

text \<open>
  C1 as stated fails: \<open>tock\<close> emits a \<open>Detected\<close> notification for every fire whose
  \<open>firstDetect\<close> flag is set, and the flag is never cleared (the line that would
  clear it is a comment in the source). In the run of the small constellation the fire
  is notified as detected at each of the three tocks.
\<close>

theorem C1_counterexample:
  "length (filter (\<lambda>n. is_detected n \<and> n_fireId n = VInt 1)
     (fst (run example_env example_ops example_c0))) = 3"
  by (simp add: example_run_out)

text \<open>
  C1, amended: when every satellite name is a string or an integer that is none of the
  keys \<open>fireId\<close>, \<open>firstDetect\<close>, \<open>firstDetector\<close>, \<open>firstReport\<close>,
  \<open>firstReporter\<close>, \<open>firstReportedTo\<close>, then at every tock of a run, a
  \<open>Detected\<close> notification is emitted for exactly those fires of which some
  satellite has come into view at an earlier \<open>tick\<close> of the run, one for each such
  fire, in the order of the fires. So no \<open>Detected\<close> notification is ever emitted
  for a fire that no satellite has seen, and from the first tock after a satellite has
  seen a fire, one is emitted at every tock.
\<close>

theorem C1_detected_every_tock:
  assumes "names_ok nms" "init env nms ES tles = Inr cstart"
    and "run env ops cstart = (outs, Inr c)"
  shows "\<exists>out c'. tock c = (out, Inr c') \<and>
           map n_fireId (filter is_detected out) =
             map (\<lambda>j. VInt (fireId (fires c ! j)))
               (filter (ever_seen env ops cstart) [0..<length (fires c)])"
proof -
  from assms(1,2) have cstart: "consistent cstart" by (rule init_consistent)
  then have c: "consistent c" using assms(3) by (rule run_consistent)
  let ?D = "concat (map detected_of (detect c))"
  let ?R = "concat (map reported_of (report c))"
  have nr: "\<not> is_detected x" if "is_reported x" for x
    using that by (cases x) simp_all
  from tock_out_after[OF c] nr have "filter is_detected ?D = ?D" "filter is_detected ?R = []"
    by (auto simp: filter_empty_conv filter_id_conv)
  then have D: "filter is_detected (?D @ ?R) = ?D" by simp
  from init_eq[OF assms(2)] have "fires cstart = []" by simp
  with run_flag[OF cstart assms(3)]
  have flag: "(detect c ! j) k_firstDetect = Some (VBool True) \<longleftrightarrow> ever_seen env ops cstart j"
    if "j < length (fires c)" for j
    using that by simp
  have "filter (\<lambda>j. (detect c ! j) k_firstDetect = Some (VBool True)) [0..<length (fires c)]
      = filter (ever_seen env ops cstart) [0..<length (fires c)]"
    using flag by (intro filter_cong) auto
  with tock_detected_ids[OF c] D tock_consistent_eq[OF c] show ?thesis
    by auto
qed

theorem C1_detected_every_tock_witness:
  "\<exists>c out c'. run example_env (take 4 example_ops) example_c0 = ([], Inr c) \<and>
      tock c = (out, Inr c') \<and>
      ever_seen example_env (take 4 example_ops) example_c0 0 \<and>
      map n_fireId (filter is_detected out) = [VInt 1]"
proof -
  define c where "c = projr (snd (run example_env (take 4 example_ops) example_c0))"
  have run: "run example_env (take 4 example_ops) example_c0 = ([], Inr c)"
    unfolding c_def by (simp add: example_defs)
  have c: "fires c = [fire1]"
    unfolding c_def by (simp add: example_defs)
  have seen: "ever_seen example_env (take 4 example_ops) example_c0 0"
    by (simp add: seen_at_def sees_def min_elevation_at_def Ex_less_Suc example_defs)
  from C1_detected_every_tock[OF names_ok_example init_example run]
  obtain out c' where t: "tock c = (out, Inr c')"
    and ids: "map n_fireId (filter is_detected out) =
             map (\<lambda>j. VInt (fireId (fires c ! j)))
               (filter (ever_seen example_env (take 4 example_ops) example_c0)
                  [0..<length (fires c)])"
    by blast
  from ids seen have "map n_fireId (filter is_detected out) = [VInt 1]"
    by (simp add: c fire1_def)
  with run t seen show ?thesis
    by (intro exI[of _ c] exI[of _ out] exI[of _ c']) simp
qed

end
